theory Spec2Isabelle
  imports Complex_Main "HOL-Library.Word" "HOL-Library.Multiset"
begin

unbundle bit_operations_syntax

section \<open>Types and error codes of hll.h\<close>

text \<open>
  The library is configured by macros. The model follows the defaults of the header:
  \<^verbatim>\<open>HLL_HASH_T\<close> is \<^verbatim>\<open>unsigned int\<close>, a 32-bit word, and so is the type of a
  register (\<^verbatim>\<open>hll_hash_t *_registers\<close>). The element type \<^verbatim>\<open>HLL_ELEMENT_T\<close> stays a
  type parameter \<open>'e\<close>. \<^verbatim>\<open>typedef int hll_error\<close> keeps its integer codes.
\<close>

type_synonym hll_hash_t = "32 word"
type_synonym hll_error = int

definition HLL_OK :: hll_error where
  "HLL_OK = 0"

definition HLL_ERROR_HLL_NULL :: hll_error where
  "HLL_ERROR_HLL_NULL = - 1"

definition HLL_ERROR_INVALID_PRECISION :: hll_error where
  "HLL_ERROR_INVALID_PRECISION = - 2"

definition HLL_ERROR_HLL_UNINITIALIZED :: hll_error where
  "HLL_ERROR_HLL_UNINITIALIZED = - 3"

definition HLL_ERROR_ALLOCATING_MEMORY :: hll_error where
  "HLL_ERROR_ALLOCATING_MEMORY = - 4"

definition HLL_PRECISION_MIN :: "32 word" where
  "HLL_PRECISION_MIN = 4"

definition HLL_PRECISION_MAX :: "32 word" where
  "HLL_PRECISION_MAX = 16"

section \<open>Bit-level helpers: \<^verbatim>\<open>hll_max\<close>, \<^verbatim>\<open>hll_get_hash_zeros\<close>, the register index\<close>

definition hll_max :: "hll_hash_t \<Rightarrow> hll_hash_t \<Rightarrow> hll_hash_t" where
  "hll_max a b = (if a > b then a else b)"

text \<open>
  The loop of \<^verbatim>\<open>hll_get_hash_zeros\<close>:
  \<^verbatim>\<open>for (unsigned int i = 0; i < sizeof(hll_hash_t)*8; ++i) { if (head & (1<<i)) break; count++; }\<close>
  with \<open>sizeof(hll_hash_t)*8 = 32\<close>. The \<^verbatim>\<open>int\<close> expression \<^verbatim>\<open>1<<i\<close> is the 32-bit
  pattern with bit \<open>i\<close> set (for \<open>i = 31\<close> that is what two's complement compilers
  produce).
\<close>

function hll_get_hash_zeros_loop :: "hll_hash_t \<Rightarrow> nat \<Rightarrow> 32 word \<Rightarrow> 32 word" where
  "hll_get_hash_zeros_loop head i cnt =
     (if i < 32 then
        (if head AND push_bit i 1 \<noteq> 0 then cnt
         else hll_get_hash_zeros_loop head (Suc i) (cnt + 1))
      else cnt)"
  by pat_completeness auto
termination
  by (relation "measure (\<lambda>(head, i, cnt). 32 - i)") auto

declare hll_get_hash_zeros_loop.simps [simp del]

definition hll_get_hash_zeros :: "hll_hash_t \<Rightarrow> 32 word \<Rightarrow> 32 word" where
  "hll_get_hash_zeros hash_value p =
     (let head = hash_value AND (push_bit (unat p) 1 - 1)
      in hll_get_hash_zeros_loop head 0 0)"

text \<open>
  The locals \<^verbatim>\<open>offset\<close>, \<^verbatim>\<open>mask\<close> and \<^verbatim>\<open>idx\<close> of \<^verbatim>\<open>hll_add\<close>:
  \<^verbatim>\<open>offset = sizeof(hll_hash_t)*8 - precision; mask = ~((1 << offset) - 1);
  idx = (hashed_elem & mask) >> offset\<close>.
\<close>

definition hll_add_idx :: "hll_hash_t \<Rightarrow> 32 word \<Rightarrow> hll_hash_t" where
  "hll_add_idx hashed_elem p =
     (let offset = 32 - p;
          mask = NOT (push_bit (unat offset) 1 - 1)
      in drop_bit (unat offset) (hashed_elem AND mask))"

text \<open>
  The value \<^verbatim>\<open>hash_zeros + 1\<close> that \<^verbatim>\<open>hll_add\<close> hands to \<^verbatim>\<open>hll_max\<close>.
\<close>

definition hll_add_rank :: "hll_hash_t \<Rightarrow> 32 word \<Rightarrow> hll_hash_t" where
  "hll_add_rank hashed_elem p = hll_get_hash_zeros hashed_elem p + 1"

text \<open>
  The run statistic in the words of the specification: the number of consecutive zero
  bits of a word, scanning from bit 0 upward over the 32 positions of the scan.
\<close>

definition zero_run :: "32 word \<Rightarrow> nat" where
  "zero_run w = length (takeWhile (\<lambda>i. \<not> bit w i) [0..<32])"

section \<open>Memory: estimator objects and register arrays\<close>

text \<open>
  Every operation of the library takes pointers to \<^verbatim>\<open>hll_t\<close> objects, and an object
  points to its register array. Both levels are kept in an explicit store, so that two
  handles may name the same object and two objects may share one array. A pointer is an
  \<open>addr option\<close>, \<open>None\<close> being \<^verbatim>\<open>NULL\<close>; the \<^verbatim>\<open>hash\<close> field is a function
  pointer and may be \<^verbatim>\<open>NULL\<close> as well (\<^verbatim>\<open>hll_init2\<close> leaves it so).

  What the C standard leaves undefined is a result of its own kind, \<open>Inl\<close> of the
  reason; a call that returns gives \<open>Inr\<close> of its return value and the new store.
\<close>

type_synonym addr = nat

datatype undefined_behaviour =
  InvalidPointer | NullFunctionCall | OutOfBounds | InvalidFree | ConversionOutOfRange

record 'e hll_t =
  registers :: "addr option"
  precision :: "32 word"
  hash :: "('e \<Rightarrow> 32 word \<Rightarrow> hll_hash_t) option"

record 'e memory =
  objects :: "addr \<Rightarrow> 'e hll_t option"
  arrays :: "addr \<Rightarrow> hll_hash_t list option"

text \<open>Reading and writing \<^verbatim>\<open>_registers[i]\<close> through the array pointer \<open>a\<close>.\<close>

definition reg_load :: "'e memory \<Rightarrow> addr \<Rightarrow> nat \<Rightarrow> undefined_behaviour + hll_hash_t" where
  "reg_load s a i =
     (case arrays s a of
        None \<Rightarrow> Inl InvalidPointer
      | Some regs \<Rightarrow> if i < length regs then Inr (regs ! i) else Inl OutOfBounds)"

definition reg_store ::
  "'e memory \<Rightarrow> addr \<Rightarrow> nat \<Rightarrow> hll_hash_t \<Rightarrow> undefined_behaviour + 'e memory" where
  "reg_store s a i v =
     (case arrays s a of
        None \<Rightarrow> Inl InvalidPointer
      | Some regs \<Rightarrow>
          if i < length regs then Inr (s\<lparr>arrays := (arrays s)(a \<mapsto> regs[i := v])\<rparr>)
          else Inl OutOfBounds)"

section \<open>Construction and teardown\<close>

text \<open>
  \<^verbatim>\<open>_hll_init_impl(hll, hll_src)\<close>. The template \<^verbatim>\<open>*hll_src\<close> is only read, once, so it
  is passed by value (\<open>None\<close> for a \<^verbatim>\<open>NULL\<close> template). \<^verbatim>\<open>HLL_CALLOC\<close> is a
  configuration macro of the header: what the allocator answers is the argument
  \<open>calloc_result\<close>, \<open>None\<close> when it fails and otherwise the address of a zero-filled
  array of \<^verbatim>\<open>1 << precision\<close> registers.
\<close>

definition hll_init_impl ::
  "addr option \<Rightarrow> 'e hll_t option \<Rightarrow> addr option \<Rightarrow> 'e memory
     \<Rightarrow> undefined_behaviour + (hll_error \<times> 'e memory)" where
  "hll_init_impl hll hll_src calloc_result s =
     (case hll of
        None \<Rightarrow> Inr (HLL_ERROR_HLL_NULL, s)
      | Some p \<Rightarrow>
          (case objects s p of
             None \<Rightarrow> Inl InvalidPointer
           | Some h0 \<Rightarrow>
               let h = (case hll_src of None \<Rightarrow> h0 | Some t \<Rightarrow> t);
                   s1 = s\<lparr>objects := (objects s)(p \<mapsto> h)\<rparr>
               in if precision h < HLL_PRECISION_MIN \<or> precision h > HLL_PRECISION_MAX
                  then Inr (HLL_ERROR_INVALID_PRECISION, s1)
                  else
                    (case calloc_result of
                       None \<Rightarrow>
                         Inr (HLL_ERROR_ALLOCATING_MEMORY,
                              s1\<lparr>objects := (objects s1)(p \<mapsto> h\<lparr>registers := None\<rparr>)\<rparr>)
                     | Some a \<Rightarrow>
                         Inr (HLL_OK,
                              s1\<lparr>objects := (objects s1)(p \<mapsto> h\<lparr>registers := Some a\<rparr>),
                                 arrays := (arrays s1)
                                   (a \<mapsto> replicate (unat (push_bit (unat (precision h)) 1 :: 32 word)) 0)\<rparr>))))"

definition hll_init2 ::
  "addr option \<Rightarrow> 32 word \<Rightarrow> addr option \<Rightarrow> 'e memory
     \<Rightarrow> undefined_behaviour + (hll_error \<times> 'e memory)" where
  "hll_init2 hll p calloc_result s =
     hll_init_impl hll (Some \<lparr>registers = None, precision = p, hash = None\<rparr>) calloc_result s"

text \<open>
  \<^verbatim>\<open>hll_destroy\<close> hands the array to \<^verbatim>\<open>HLL_FREE\<close> and returns; it does not touch the
  \<^verbatim>\<open>_registers\<close> field. Freeing an address that holds no live array is undefined.
\<close>

definition hll_destroy ::
  "addr option \<Rightarrow> 'e memory \<Rightarrow> undefined_behaviour + (hll_error \<times> 'e memory)" where
  "hll_destroy hll s =
     (case hll of
        None \<Rightarrow> Inr (HLL_ERROR_HLL_NULL, s)
      | Some p \<Rightarrow>
          (case objects s p of
             None \<Rightarrow> Inl InvalidPointer
           | Some h \<Rightarrow>
               (case registers h of
                  None \<Rightarrow> Inr (HLL_ERROR_HLL_UNINITIALIZED, s)
                | Some a \<Rightarrow>
                    (case arrays s a of
                       None \<Rightarrow> Inl InvalidFree
                     | Some regs \<Rightarrow> Inr (HLL_OK, s\<lparr>arrays := (arrays s)(a := None)\<rparr>)))))"

section \<open>Add and merge\<close>

definition hll_add ::
  "addr option \<Rightarrow> 'e \<Rightarrow> 32 word \<Rightarrow> 'e memory
     \<Rightarrow> undefined_behaviour + (hll_error \<times> 'e memory)" where
  "hll_add hll element element_len s =
     (case hll of
        None \<Rightarrow> Inr (HLL_ERROR_HLL_NULL, s)
      | Some p \<Rightarrow>
          (case objects s p of
             None \<Rightarrow> Inl InvalidPointer
           | Some h \<Rightarrow>
               (case registers h of
                  None \<Rightarrow> Inr (HLL_ERROR_HLL_UNINITIALIZED, s)
                | Some a \<Rightarrow>
                    (case hash h of
                       None \<Rightarrow> Inl NullFunctionCall
                     | Some f \<Rightarrow>
                         let hashed_elem = f element element_len;
                             idx = hll_add_idx hashed_elem (precision h);
                             rank = hll_add_rank hashed_elem (precision h)
                         in (case reg_load s a (unat idx) of
                               Inl u \<Rightarrow> Inl u
                             | Inr old \<Rightarrow>
                                 (case reg_store s a (unat idx) (hll_max old rank) of
                                    Inl u \<Rightarrow> Inl u
                                  | Inr s' \<Rightarrow> Inr (HLL_OK, s')))))))"

text \<open>
  The loop of \<^verbatim>\<open>hll_merge\<close>, \<^verbatim>\<open>for (int i = 0; i < (1 << dest->precision) && i < (1 <<
  src->precision); ++i)\<close>. The bounds \<open>nd\<close> and \<open>ns\<close> are the two \<^verbatim>\<open>int\<close> values
  \<^verbatim>\<open>1 << precision\<close>; the counter starts at 0 and only grows, so it is a natural number.
\<close>

function hll_merge_loop ::
  "addr \<Rightarrow> addr \<Rightarrow> nat \<Rightarrow> nat \<Rightarrow> nat \<Rightarrow> 'e memory \<Rightarrow> undefined_behaviour + 'e memory" where
  "hll_merge_loop da sa nd ns i s =
     (if i < nd \<and> i < ns then
        (case reg_load s da i of
           Inl u \<Rightarrow> Inl u
         | Inr x \<Rightarrow>
             (case reg_load s sa i of
                Inl u \<Rightarrow> Inl u
              | Inr y \<Rightarrow>
                  (case reg_store s da i (hll_max x y) of
                     Inl u \<Rightarrow> Inl u
                   | Inr s' \<Rightarrow> hll_merge_loop da sa nd ns (Suc i) s')))
      else Inr s)"
  by pat_completeness auto
termination
  by (relation "measure (\<lambda>(da, sa, nd, ns, i, s). nd - i)") auto

declare hll_merge_loop.simps [simp del]

text \<open>The \<^verbatim>\<open>int\<close> value of \<^verbatim>\<open>1 << precision\<close>, as a loop bound for a counter from 0.\<close>

definition shift_bound :: "32 word \<Rightarrow> nat" where
  "shift_bound p = nat (sint (push_bit (unat p) 1 :: 32 word))"

definition hll_merge ::
  "addr option \<Rightarrow> addr option \<Rightarrow> 'e memory
     \<Rightarrow> undefined_behaviour + (hll_error \<times> 'e memory)" where
  "hll_merge hll_dest hll_src s =
     (case hll_dest of
        None \<Rightarrow> Inr (HLL_ERROR_HLL_NULL, s)
      | Some pd \<Rightarrow>
          (case hll_src of
             None \<Rightarrow> Inr (HLL_ERROR_HLL_NULL, s)
           | Some ps \<Rightarrow>
               (case objects s pd of
                  None \<Rightarrow> Inl InvalidPointer
                | Some hdst \<Rightarrow>
                    (case registers hdst of
                       None \<Rightarrow> Inr (HLL_ERROR_HLL_UNINITIALIZED, s)
                     | Some da \<Rightarrow>
                         (case objects s ps of
                            None \<Rightarrow> Inl InvalidPointer
                          | Some hsrc \<Rightarrow>
                              (case registers hsrc of
                                 None \<Rightarrow> Inr (HLL_ERROR_HLL_UNINITIALIZED, s)
                               | Some sa \<Rightarrow>
                                   (case hll_merge_loop da sa (shift_bound (precision hdst))
                                           (shift_bound (precision hsrc)) 0 s of
                                      Inl u \<Rightarrow> Inl u
                                    | Inr s' \<Rightarrow> Inr (HLL_OK, s'))))))))"

section \<open>Floating point\<close>

text \<open>
  \<^verbatim>\<open>hll_count\<close> computes in \<^verbatim>\<open>float\<close> (and the default \<^verbatim>\<open>magic\<close> constant in
  \<^verbatim>\<open>double\<close>). A floating-point value is a rational number, an infinity or a
  not-a-number; every arithmetic result is rounded to the nearest value of its format,
  ties to even, and becomes an infinity beyond the largest finite value (IEEE 754
  binary32 and binary64). The sign of a zero is not tracked.
\<close>

datatype cfloat = FNum rat | FPInf | FNInf | FNaN

text \<open>The number of binary digits of a positive integer.\<close>

function bit_length :: "int \<Rightarrow> int" where
  "bit_length n = (if n \<le> 0 then 0 else 1 + bit_length (n div 2))"
  by pat_completeness auto
termination
  by (relation "measure nat") auto

declare bit_length.simps [simp del]

definition pow2 :: "int \<Rightarrow> rat" where
  "pow2 k = (if 0 \<le> k then 2 ^ nat k else 1 / 2 ^ nat (- k))"

text \<open>For \<open>q > 0\<close>, the exponent \<open>e\<close> with \<open>2\<^sup>e \<le> q < 2\<^sup>e\<^sup>+\<^sup>1\<close>.\<close>

definition ilog2 :: "rat \<Rightarrow> int" where
  "ilog2 q =
     (if 1 \<le> q then bit_length \<lfloor>q\<rfloor> - 1
      else - bit_length (\<lceil>1 / q\<rceil> - 1))"

definition round_half_even :: "rat \<Rightarrow> int" where
  "round_half_even q =
     (let f = \<lfloor>q\<rfloor>; d = q - of_int f
      in if d < 1 / 2 then f
         else if 1 / 2 < d then f + 1
         else if even f then f else f + 1)"

text \<open>
  Rounding to a binary format with \<open>prec\<close> significant bits and exponents from \<open>emin\<close>
  to \<open>emax\<close>; below \<open>2\<^sup>e\<^sup>m\<^sup>i\<^sup>n\<close> the spacing stays that of the subnormal numbers.
\<close>

definition float_round :: "nat \<Rightarrow> int \<Rightarrow> int \<Rightarrow> rat \<Rightarrow> cfloat" where
  "float_round prec emin emax x =
     (if x = 0 then FNum 0
      else
        let e = max (ilog2 \<bar>x\<bar>) emin;
            ulp = pow2 (e - int prec + 1);
            y = of_int (round_half_even (x / ulp)) * ulp
        in if pow2 (emax + 1) \<le> \<bar>y\<bar> then (if 0 < x then FPInf else FNInf) else FNum y)"

definition round_float :: "rat \<Rightarrow> cfloat" where
  "round_float = float_round 24 (- 126) 127"

definition round_double :: "rat \<Rightarrow> cfloat" where
  "round_double = float_round 53 (- 1022) 1023"

fun ieee_add :: "(rat \<Rightarrow> cfloat) \<Rightarrow> cfloat \<Rightarrow> cfloat \<Rightarrow> cfloat" where
  "ieee_add rnd (FNum a) (FNum b) = rnd (a + b)"
| "ieee_add rnd FNaN y = FNaN"
| "ieee_add rnd x FNaN = FNaN"
| "ieee_add rnd FPInf FNInf = FNaN"
| "ieee_add rnd FNInf FPInf = FNaN"
| "ieee_add rnd FPInf y = FPInf"
| "ieee_add rnd x FPInf = FPInf"
| "ieee_add rnd FNInf y = FNInf"
| "ieee_add rnd x FNInf = FNInf"

fun ieee_neg :: "cfloat \<Rightarrow> cfloat" where
  "ieee_neg (FNum a) = FNum (- a)"
| "ieee_neg FPInf = FNInf"
| "ieee_neg FNInf = FPInf"
| "ieee_neg FNaN = FNaN"

definition ieee_sub :: "(rat \<Rightarrow> cfloat) \<Rightarrow> cfloat \<Rightarrow> cfloat \<Rightarrow> cfloat" where
  "ieee_sub rnd x y = ieee_add rnd x (ieee_neg y)"

text \<open>The sign of a value, for products and quotients with an infinity.\<close>

fun ieee_sign :: "cfloat \<Rightarrow> int" where
  "ieee_sign (FNum a) = (if a < 0 then - 1 else if a = 0 then 0 else 1)"
| "ieee_sign FPInf = 1"
| "ieee_sign FNInf = - 1"
| "ieee_sign FNaN = 0"

definition ieee_inf :: "int \<Rightarrow> cfloat" where
  "ieee_inf sg = (if sg = 0 then FNaN else if 0 < sg then FPInf else FNInf)"

fun ieee_mul :: "(rat \<Rightarrow> cfloat) \<Rightarrow> cfloat \<Rightarrow> cfloat \<Rightarrow> cfloat" where
  "ieee_mul rnd (FNum a) (FNum b) = rnd (a * b)"
| "ieee_mul rnd FNaN y = FNaN"
| "ieee_mul rnd x FNaN = FNaN"
| "ieee_mul rnd x y = ieee_inf (ieee_sign x * ieee_sign y)"

fun ieee_div :: "(rat \<Rightarrow> cfloat) \<Rightarrow> cfloat \<Rightarrow> cfloat \<Rightarrow> cfloat" where
  "ieee_div rnd (FNum a) (FNum b) = (if b = 0 then ieee_inf (ieee_sign (FNum a)) else rnd (a / b))"
| "ieee_div rnd FNaN y = FNaN"
| "ieee_div rnd x FNaN = FNaN"
| "ieee_div rnd (FNum a) y = FNum 0"
| "ieee_div rnd x (FNum b) = ieee_inf (ieee_sign x * (if b < 0 then - 1 else 1))"
| "ieee_div rnd x y = FNaN"

fun ieee_less :: "cfloat \<Rightarrow> cfloat \<Rightarrow> bool" where
  "ieee_less (FNum a) (FNum b) = (a < b)"
| "ieee_less FNaN y = False"
| "ieee_less x FNaN = False"
| "ieee_less x FNInf = False"
| "ieee_less FPInf y = False"
| "ieee_less FNInf y = True"
| "ieee_less x FPInf = True"

fun ieee_less_eq :: "cfloat \<Rightarrow> cfloat \<Rightarrow> bool" where
  "ieee_less_eq (FNum a) (FNum b) = (a \<le> b)"
| "ieee_less_eq FNaN y = False"
| "ieee_less_eq x FNaN = False"
| "ieee_less_eq FNInf y = True"
| "ieee_less_eq x FPInf = True"
| "ieee_less_eq x FNInf = False"
| "ieee_less_eq FPInf y = False"

text \<open>The \<^verbatim>\<open>float\<close> operations of \<^verbatim>\<open>hll_count\<close> and the conversions it performs.\<close>

abbreviation fadd :: "cfloat \<Rightarrow> cfloat \<Rightarrow> cfloat" where
  "fadd \<equiv> ieee_add round_float"

abbreviation fsub :: "cfloat \<Rightarrow> cfloat \<Rightarrow> cfloat" where
  "fsub \<equiv> ieee_sub round_float"

abbreviation fmul :: "cfloat \<Rightarrow> cfloat \<Rightarrow> cfloat" where
  "fmul \<equiv> ieee_mul round_float"

abbreviation fdiv :: "cfloat \<Rightarrow> cfloat \<Rightarrow> cfloat" where
  "fdiv \<equiv> ieee_div round_float"

definition float_of_uint :: "32 word \<Rightarrow> cfloat" where
  "float_of_uint w = round_float (of_int (uint w))"

definition double_of_uint :: "32 word \<Rightarrow> cfloat" where
  "double_of_uint w = round_double (of_int (uint w))"

definition float_of_double :: "cfloat \<Rightarrow> cfloat" where
  "float_of_double x = (case x of FNum q \<Rightarrow> round_float q | _ \<Rightarrow> x)"

text \<open>
  Returning a \<^verbatim>\<open>float\<close> from a function of type \<^verbatim>\<open>int\<close> drops the fraction; the
  conversion is undefined when the integral part is no \<^verbatim>\<open>int\<close>.
\<close>

definition float_to_int :: "cfloat \<Rightarrow> undefined_behaviour + int" where
  "float_to_int x =
     (case x of
        FNum q \<Rightarrow>
          (let t = (if 0 \<le> q then \<lfloor>q\<rfloor> else - \<lfloor>- q\<rfloor>)
           in if - (2 ^ 31) \<le> t \<and> t < 2 ^ 31 then Inr t else Inl ConversionOutOfRange)
      | _ \<Rightarrow> Inl ConversionOutOfRange)"

text \<open>
  \<^verbatim>\<open>HLL_POWF\<close> and \<^verbatim>\<open>HLL_LOGF\<close> are configuration macros (by default \<^verbatim>\<open>powf\<close> and
  \<^verbatim>\<open>logf\<close> of the C library), so \<^verbatim>\<open>hll_count\<close> takes both functions as parameters.
  \<open>powf_base2\<close> is \<^verbatim>\<open>powf\<close> on the only arguments the program passes: base two and
  an integral exponent, where the result is the exact power, an infinity on overflow and
  zero on underflow. Other arguments are outside the program and give \<open>FNaN\<close> here.
\<close>

definition powf_base2 :: "cfloat \<Rightarrow> cfloat \<Rightarrow> cfloat" where
  "powf_base2 x y =
     (if x = FNum 2 then
        (case y of
           FNum q \<Rightarrow>
             if of_int \<lfloor>q\<rfloor> = q then
               (if 128 \<le> q then FPInf
                else if q < - 150 then FNum 0
                else round_float (pow2 \<lfloor>q\<rfloor>))
             else FNaN
         | FPInf \<Rightarrow> FPInf
         | FNInf \<Rightarrow> FNum 0
         | FNaN \<Rightarrow> FNaN)
      else FNaN)"

section \<open>Count\<close>

text \<open>The \<^verbatim>\<open>switch\<close> that sets \<^verbatim>\<open>magic\<close>; the constants are \<^verbatim>\<open>double\<close> literals.\<close>

definition hll_count_magic :: "32 word \<Rightarrow> cfloat" where
  "hll_count_magic registers_len =
     (if registers_len = 16 then float_of_double (round_double (673 / 1000))
      else if registers_len = 32 then float_of_double (round_double (697 / 1000))
      else if registers_len = 64 then float_of_double (round_double (709 / 1000))
      else float_of_double
             (ieee_div round_double (round_double (7213 / 10000))
                (ieee_add round_double (round_double 1)
                   (ieee_div round_double (round_double (1079 / 1000))
                      (double_of_uint registers_len)))))"

text \<open>
  The summation loop,
  \<^verbatim>\<open>for (unsigned int i = 0; i < registers_len - 1; ++i) sum += HLL_POWF(2, -hll->_registers[i]);\<close>
  The register is an \<^verbatim>\<open>unsigned int\<close>, so the negation is taken modulo \<open>2\<^sup>3\<^sup>2\<close> before
  the value is converted to \<^verbatim>\<open>float\<close>.
\<close>

function hll_count_sum ::
  "(cfloat \<Rightarrow> cfloat \<Rightarrow> cfloat) \<Rightarrow> 'e memory \<Rightarrow> addr \<Rightarrow> 32 word \<Rightarrow> nat \<Rightarrow> cfloat
     \<Rightarrow> undefined_behaviour + cfloat" where
  "hll_count_sum powf s a registers_len i sm =
     (if i < unat (registers_len - 1) then
        (case reg_load s a i of
           Inl u \<Rightarrow> Inl u
         | Inr r \<Rightarrow>
             hll_count_sum powf s a registers_len (Suc i)
               (fadd sm (powf (FNum 2) (float_of_uint (- r)))))
      else Inr sm)"
  by pat_completeness auto
termination
  by (relation "measure (\<lambda>(powf, s, a, registers_len, i, sm). unat (registers_len - 1) - i)") auto

declare hll_count_sum.simps [simp del]

text \<open>
  The second loop,
  \<^verbatim>\<open>for (unsigned int i = 0; i < registers_len; ++i) if (hll->_registers[i] == 0) num_of_zero_registers++;\<close>
\<close>

function hll_count_zeros ::
  "'e memory \<Rightarrow> addr \<Rightarrow> 32 word \<Rightarrow> nat \<Rightarrow> 32 word \<Rightarrow> undefined_behaviour + 32 word" where
  "hll_count_zeros s a registers_len i num_of_zero_registers =
     (if i < unat registers_len then
        (case reg_load s a i of
           Inl u \<Rightarrow> Inl u
         | Inr r \<Rightarrow>
             hll_count_zeros s a registers_len (Suc i)
               (if r = 0 then num_of_zero_registers + 1 else num_of_zero_registers))
      else Inr num_of_zero_registers)"
  by pat_completeness auto
termination
  by (relation "measure (\<lambda>(s, a, registers_len, i, n). unat registers_len - i)") auto

declare hll_count_zeros.simps [simp del]

text \<open>\<^verbatim>\<open>float estimate = magic * registers_len * registers_len * (1 / sum);\<close>\<close>

definition hll_count_estimate :: "32 word \<Rightarrow> cfloat \<Rightarrow> cfloat" where
  "hll_count_estimate registers_len sm =
     fmul (fmul (fmul (hll_count_magic registers_len) (float_of_uint registers_len))
             (float_of_uint registers_len))
       (fdiv (FNum 1) sm)"

text \<open>
  The guard of the first branch, \<^verbatim>\<open>estimate < 5 / 2 * registers_len\<close>: the quotient
  \<^verbatim>\<open>5 / 2\<close> is a division of two \<^verbatim>\<open>int\<close> constants, the product is an
  \<^verbatim>\<open>unsigned int\<close>, and the comparison is made in \<^verbatim>\<open>float\<close>.
\<close>

definition hll_count_small_range :: "cfloat \<Rightarrow> 32 word \<Rightarrow> bool" where
  "hll_count_small_range estimate registers_len =
     ieee_less estimate (float_of_uint (word_of_int (5 div 2) * registers_len))"

definition hll_count ::
  "(cfloat \<Rightarrow> cfloat \<Rightarrow> cfloat) \<Rightarrow> (cfloat \<Rightarrow> cfloat) \<Rightarrow> addr option \<Rightarrow> 'e memory
     \<Rightarrow> undefined_behaviour + int" where
  "hll_count powf logf hll s =
     (case hll of
        None \<Rightarrow> Inr HLL_ERROR_HLL_NULL
      | Some p \<Rightarrow>
          (case objects s p of
             None \<Rightarrow> Inl InvalidPointer
           | Some h \<Rightarrow>
               (case registers h of
                  None \<Rightarrow> Inr HLL_ERROR_HLL_UNINITIALIZED
                | Some a \<Rightarrow>
                    let registers_len = push_bit (unat (precision h)) 1
                    in (case hll_count_sum powf s a registers_len 0 (FNum 0) of
                          Inl u \<Rightarrow> Inl u
                        | Inr sm \<Rightarrow>
                            let estimate = hll_count_estimate registers_len sm
                            in if hll_count_small_range estimate registers_len then
                                 (case hll_count_zeros s a registers_len 0 0 of
                                    Inl u \<Rightarrow> Inl u
                                  | Inr num_of_zero_registers \<Rightarrow>
                                      if num_of_zero_registers = 0 then float_to_int estimate
                                      else float_to_int
                                             (fmul (float_of_uint registers_len)
                                                (logf (float_of_uint
                                                   (registers_len div num_of_zero_registers)))))
                               else if ieee_less_eq estimate
                                         (round_float (of_int (2 ^ 32 div 30)))
                               then float_to_int estimate
                               else float_to_int
                                      (fmul (ieee_neg (round_float (2 ^ 32)))
                                         (logf (fsub (FNum 1)
                                            (fdiv estimate (round_float (2 ^ 32))))))))))"

section \<open>The caller of example.c\<close>

text \<open>
  \<^verbatim>\<open>integer_hash\<close> of example.c, the hash function the demonstration installs; its
  second parameter is not used.
\<close>

definition integer_hash :: "32 word \<Rightarrow> 32 word \<Rightarrow> 32 word" where
  "integer_hash a0 b =
     (let a1 = (a0 XOR 61) XOR drop_bit 16 a0;
          a2 = a1 + push_bit 3 a1;
          a3 = a2 XOR drop_bit 4 a2;
          a4 = a3 * 0x27d4eb2d
      in a4 XOR drop_bit 15 a4)"

text \<open>
  A caller that adds a sequence of elements, one \<^verbatim>\<open>hll_add\<close> call after the other (the
  loop of \<^verbatim>\<open>main\<close>), collecting the return codes.
\<close>

fun hll_add_all ::
  "addr option \<Rightarrow> ('e \<times> 32 word) list \<Rightarrow> 'e memory
     \<Rightarrow> undefined_behaviour + (hll_error list \<times> 'e memory)" where
  "hll_add_all hll [] s = Inr ([], s)"
| "hll_add_all hll (x # xs) s =
     (case hll_add hll (fst x) (snd x) s of
        Inl u \<Rightarrow> Inl u
      | Inr r \<Rightarrow>
          (case hll_add_all hll xs (snd r) of
             Inl u \<Rightarrow> Inl u
           | Inr rs \<Rightarrow> Inr (fst r # fst rs, snd rs)))"

text \<open>
  The effect of one \<^verbatim>\<open>hll_add\<close> on the register array of an estimator with hash function
  \<open>f\<close> and precision \<open>p\<close>, for an element and its length.
\<close>

definition hll_add_regs ::
  "('e \<Rightarrow> 32 word \<Rightarrow> hll_hash_t) \<Rightarrow> 32 word \<Rightarrow> 'e \<times> 32 word \<Rightarrow> hll_hash_t list
     \<Rightarrow> hll_hash_t list" where
  "hll_add_regs f p x regs =
     (let h = f (fst x) (snd x); i = unat (hll_add_idx h p)
      in regs[i := hll_max (regs ! i) (hll_add_rank h p)])"

text \<open>
  The register-wise maximum in the words of the specification: the registers of \<open>d\<close>
  with index from \<open>i\<close> up to, but not including, \<open>n\<close> become the maximum of the two
  arrays, the others stay.
\<close>

definition merge_regs :: "nat \<Rightarrow> nat \<Rightarrow> hll_hash_t list \<Rightarrow> hll_hash_t list \<Rightarrow> hll_hash_t list" where
  "merge_regs i n d s =
     map (\<lambda>j. if i \<le> j \<and> j < n then max (d ! j) (s ! j) else d ! j) [0..<length d]"

text \<open>
  A memory with one \<^verbatim>\<open>hll_t\<close> object at address 0 that no call has initialised yet,
  and the template of \<^verbatim>\<open>hll_init(&hll, .precision = 4)\<close> with \<^verbatim>\<open>HLL_HASH_FUNC\<close> set to
  \<^verbatim>\<open>integer_hash\<close>.
\<close>

definition blank_memory :: "(32 word) memory" where
  "blank_memory =
     \<lparr>objects = (\<lambda>x. None)(0 \<mapsto> \<lparr>registers = None, precision = 0, hash = None\<rparr>),
      arrays = (\<lambda>x. None)\<rparr>"

definition template4 :: "(32 word) hll_t" where
  "template4 = \<lparr>registers = None, precision = 4, hash = Some integer_hash\<rparr>"

text \<open>The memory in which object 0 points to the register array \<open>regs\<close> at address 1.\<close>

definition memory_with :: "('e \<Rightarrow> 32 word \<Rightarrow> 32 word) option \<Rightarrow> 32 word \<Rightarrow> hll_hash_t list \<Rightarrow> 'e memory" where
  "memory_with f p regs =
     \<lparr>objects = (\<lambda>x. None)(0 \<mapsto> \<lparr>registers = Some 1, precision = p, hash = f\<rparr>),
      arrays = (\<lambda>x. None)(1 \<mapsto> regs)\<rparr>"

text \<open>
  A memory with two estimators: object 0 with precision \<open>pd\<close> and the register array
  \<open>dregs\<close> at address 2, object 1 with precision \<open>ps\<close> and the array \<open>sregs\<close> at
  address 3.
\<close>

definition memory_pair ::
  "32 word \<Rightarrow> hll_hash_t list \<Rightarrow> 32 word \<Rightarrow> hll_hash_t list \<Rightarrow> 'e memory" where
  "memory_pair pd dregs ps sregs =
     \<lparr>objects = (\<lambda>x. None)
        (0 \<mapsto> \<lparr>registers = Some 2, precision = pd, hash = None\<rparr>,
         1 \<mapsto> \<lparr>registers = Some 3, precision = ps, hash = None\<rparr>),
      arrays = (\<lambda>x. None)(2 \<mapsto> dregs, 3 \<mapsto> sregs)\<rparr>"

text \<open>
  Register arrays of an estimator of precision 4: after the element 18 alone; after the
  elements 0, 1, ..., 14 of the demonstration's domain; with the value 1 in every
  register, which the elements 1, 2, 7, 8, 12, 13, 16, 19, 21, 25, 31, 32, 42, 57, 71 and
  108 produce; and with the value 2 in every register, which the elements 0, 3, 6, 9,
  11, 14, 17, 37, 46, 58, 65, 72, 84, 211, 276 and 371 produce.
\<close>

definition regs_after_18 :: "hll_hash_t list" where
  "regs_after_18 = [0, 0, 0, 33, 0, 0, 0, 0, 0, 0, 0, 0, 0, 0, 0, 0]"

definition regs_after_0_to_14 :: "hll_hash_t list" where
  "regs_after_0_to_14 = [1, 2, 1, 1, 2, 3, 2, 2, 2, 0, 0, 1, 3, 0, 0, 0]"

definition regs_all_1 :: "hll_hash_t list" where
  "regs_all_1 = [1, 1, 1, 1, 1, 1, 1, 1, 1, 1, 1, 1, 1, 1, 1, 1]"

definition regs_all_2 :: "hll_hash_t list" where
  "regs_all_2 = [2, 2, 2, 2, 2, 2, 2, 2, 2, 2, 2, 2, 2, 2, 2, 2]"

section \<open>The estimate in the words of the specification\<close>

text \<open>
  The bias-correction constant, the sum \<open>Z\<close> of \<open>2\<close> to the power \<open>-registers[i]\<close>
  over a list of registers, and the raw estimate \<open>E = alpha * m * m / Z\<close> for \<open>m\<close>
  registers, as exact rational numbers.
\<close>

definition spec_alpha :: "nat \<Rightarrow> rat" where
  "spec_alpha m =
     (if m = 16 then 673 / 1000
      else if m = 32 then 697 / 1000
      else if m = 64 then 709 / 1000
      else (7213 / 10000) / (1 + (1079 / 1000) / of_nat m))"

definition spec_Z :: "hll_hash_t list \<Rightarrow> rat" where
  "spec_Z regs = (\<Sum>r\<leftarrow>regs. 1 / 2 ^ unat r)"

definition spec_E :: "nat \<Rightarrow> hll_hash_t list \<Rightarrow> rat" where
  "spec_E m regs = spec_alpha m * of_nat m * of_nat m / spec_Z regs"

text \<open>
  The linear-counting estimate of the specification for \<open>m\<close> registers of which \<open>V\<close>
  are zero, with the quotient taken as an exact ratio.
\<close>

definition spec_linear_counting :: "nat \<Rightarrow> nat \<Rightarrow> real" where
  "spec_linear_counting m V = real m * ln (real m / real V)"

section \<open>The run statistic and the register index\<close>

lemma and_exp_test: "((head :: 32 word) AND 2 ^ i \<noteq> 0) = bit head i"
  by (simp add: and_exp_eq_0_iff_not_bit)

lemma hll_get_hash_zeros_loop_run:
  "i \<le> 32 \<Longrightarrow>
     hll_get_hash_zeros_loop head i cnt =
       cnt + of_nat (length (takeWhile (\<lambda>j. \<not> bit head j) [i..<32]))"
proof (induction head i cnt rule: hll_get_hash_zeros_loop.induct)
  case (1 head i cnt)
  show ?case
  proof (cases "i < 32")
    case True
    then have up: "[i..<32] = i # [Suc i..<32]"
      by (simp add: upt_conv_Cons)
    show ?thesis
    proof (cases "bit head i")
      case True
      with \<open>i < 32\<close> show ?thesis
        by (subst hll_get_hash_zeros_loop.simps) (simp add: up and_exp_test)
    next
      case False
      with \<open>i < 32\<close>
      have "hll_get_hash_zeros_loop head i cnt = hll_get_hash_zeros_loop head (Suc i) (cnt + 1)"
        by (subst hll_get_hash_zeros_loop.simps) (simp add: and_exp_test)
      also have "\<dots> = cnt + 1 + of_nat (length (takeWhile (\<lambda>j. \<not> bit head j) [Suc i..<32]))"
        using 1 \<open>i < 32\<close> False by (simp add: and_exp_test)
      also have "\<dots> = cnt + of_nat (length (takeWhile (\<lambda>j. \<not> bit head j) [i..<32]))"
        using False by (simp add: up)
      finally show ?thesis .
    qed
  next
    case False
    with 1 show ?thesis
      by (subst hll_get_hash_zeros_loop.simps) simp
  qed
qed

lemma zero_run_le:
  assumes "j < 32" "bit w j"
  shows "zero_run w \<le> j"
proof (rule ccontr)
  let ?run = "takeWhile (\<lambda>i. \<not> bit w i) [0..<32]"
  assume "\<not> zero_run w \<le> j"
  then have lt: "j < length ?run"
    by (simp add: zero_run_def)
  then have "?run ! j = [0..<32] ! j"
    by (rule takeWhile_nth)
  with assms have eq: "?run ! j = j"
    by simp
  from lt have "?run ! j \<in> set ?run"
    by (rule nth_mem)
  then have "\<not> bit w (?run ! j)"
    by (rule set_takeWhileD [THEN conjunct2])
  with eq assms show False by simp
qed

lemma zero_run_ge:
  assumes "j \<le> 32" "\<And>i. i < j \<Longrightarrow> \<not> bit w i"
  shows "j \<le> zero_run w"
  unfolding zero_run_def
  by (rule length_takeWhile_less_P_nth) (use assms in auto)

lemma zero_run_le32: "zero_run w \<le> 32"
  using length_takeWhile_le [of "\<lambda>i. \<not> bit w i" "[0..<32]"]
  by (simp add: zero_run_def)

lemma zero_run_0: "zero_run 0 = 32"
  using zero_run_ge [of 32 0] zero_run_le32 [of 0] by simp

lemma low_bits_mask: "(h :: 32 word) AND (push_bit n 1 - 1) = take_bit n h"
  by (simp add: take_bit_eq_mask mask_eq_exp_minus_1)

lemma hll_add_rank_unat: "unat (hll_add_rank h p) = 1 + zero_run (take_bit (unat p) h)"
proof -
  let ?z = "zero_run (take_bit (unat p) h)"
  have "hll_get_hash_zeros h p = of_nat ?z"
    by (simp only: hll_get_hash_zeros_def Let_def low_bits_mask zero_run_def)
       (simp add: hll_get_hash_zeros_loop_run)
  moreover have "?z \<le> 32"
    by (rule zero_run_le32)
  then have "unat (of_nat ?z + 1 :: 32 word) = ?z + 1"
    by (simp add: unat_word_ariths unat_of_nat)
  ultimately show ?thesis
    by (simp add: hll_add_rank_def)
qed

lemma zero_run_take_bit:
  fixes h :: "32 word"
  assumes "take_bit n h \<noteq> 0"
  shows "zero_run (take_bit n h) < n"
proof -
  from assms obtain j where j: "bit (take_bit n h) j"
    by (auto simp: bit_eq_iff)
  then have "j < n"
    by (simp add: bit_take_bit_iff)
  moreover from j have "j < 32"
    using bit_imp_le_length [of "take_bit n h" j] by simp
  then have "zero_run (take_bit n h) \<le> j"
    using j by (rule zero_run_le)
  ultimately show ?thesis by simp
qed

lemma unat_offset: "p \<le> (16 :: 32 word) \<Longrightarrow> unat (32 - p) = 32 - unat p"
  by (simp add: unat_sub word_le_nat_alt)

lemma hll_add_idx_less:
  assumes "p \<le> (16 :: 32 word)"
  shows "unat (hll_add_idx h p) < 2 ^ unat p"
proof -
  let ?n = "32 - unat p"
  let ?w = "h AND NOT (push_bit ?n 1 - 1)"
  from assms have p: "unat p \<le> 16"
    by (simp add: word_le_nat_alt)
  have "unat ?w < 2 ^ 32"
    using unsigned_less [of ?w] by simp
  also have "(2::nat) ^ 32 = 2 ^ unat p * 2 ^ ?n"
    using p by (simp flip: power_add)
  finally have "unat ?w div 2 ^ ?n < 2 ^ unat p"
    by (rule less_mult_imp_div_less)
  moreover have "unat (drop_bit ?n ?w) = unat ?w div 2 ^ ?n"
    by (subst unat_drop_bit_eq) (rule drop_bit_eq_div)
  moreover have "hll_add_idx h p = drop_bit ?n ?w"
    by (simp only: hll_add_idx_def Let_def unat_offset [OF assms])
  ultimately show ?thesis by simp
qed

text \<open>
  What \<^verbatim>\<open>hll_add\<close> does to an estimator whose register array has \<open>2\<^sup>p\<close> slots for a
  precision \<open>p\<close> of at most 16 and whose hash function is set: it returns \<^verbatim>\<open>HLL_OK\<close>
  and replaces one register by the maximum of its value and the rank.
\<close>

lemma hll_add_initialized:
  assumes "objects s hp = Some est" "registers est = Some a" "hash est = Some f"
    and "arrays s a = Some regs" "length regs = 2 ^ unat (precision est)"
    and "precision est \<le> HLL_PRECISION_MAX"
  shows "hll_add (Some hp) e l s =
           Inr (HLL_OK, s\<lparr>arrays := (arrays s)
                  (a \<mapsto> regs[unat (hll_add_idx (f e l) (precision est)) :=
                            hll_max (regs ! unat (hll_add_idx (f e l) (precision est)))
                              (hll_add_rank (f e l) (precision est))])\<rparr>)"
proof -
  from assms(6) have "unat (hll_add_idx (f e l) (precision est)) < 2 ^ unat (precision est)"
    by (intro hll_add_idx_less) (simp add: HLL_PRECISION_MAX_def)
  with assms show ?thesis
    by (simp add: hll_add_def reg_load_def reg_store_def Let_def)
qed

lemma replicate_16: "replicate 16 x = [x, x, x, x, x, x, x, x, x, x, x, x, x, x, x, x]"
  by (simp add: eval_nat_numeral)

lemma integer_hash_18: "integer_hash 18 4 = 0x3d1cb700"
  by (simp add: integer_hash_def Let_def drop_bit_eq_div)

text \<open>
  Claim C10. For every 32-bit hash value \<open>h\<close> and every precision \<open>p\<close> from 4 to 16, the
  index \<^verbatim>\<open>(h & ~((1 << (32-p)) - 1)) >> (32-p)\<close> that \<^verbatim>\<open>hll_add\<close> computes is less than
  \<open>2\<^sup>p\<close>; on an estimator whose array has \<open>2\<^sup>p\<close> registers the index of the hashed
  element lies inside the array, and \<^verbatim>\<open>hll_add\<close> returns \<^verbatim>\<open>HLL_OK\<close> without any
  access out of bounds.
\<close>

theorem hll_add_idx_in_bounds:
  assumes "HLL_PRECISION_MIN \<le> precision est" "precision est \<le> HLL_PRECISION_MAX"
    and "objects s hp = Some est" "registers est = Some a" "hash est = Some f"
    and "arrays s a = Some regs" "length regs = 2 ^ unat (precision est)"
  shows "unat (hll_add_idx h (precision est)) < 2 ^ unat (precision est) \<and>
         unat (hll_add_idx (f e l) (precision est)) < length regs \<and>
         (\<exists>s'. hll_add (Some hp) e l s = Inr (HLL_OK, s'))"
proof -
  from assms(2) have le: "precision est \<le> 16"
    by (simp add: HLL_PRECISION_MAX_def)
  then have "unat (hll_add_idx h (precision est)) < 2 ^ unat (precision est)"
    by (rule hll_add_idx_less)
  moreover from le have "unat (hll_add_idx (f e l) (precision est)) < 2 ^ unat (precision est)"
    by (rule hll_add_idx_less)
  moreover have "\<exists>s'. hll_add (Some hp) e l s = Inr (HLL_OK, s')"
    using hll_add_initialized [OF assms(3-7) assms(2)] by blast
  ultimately show ?thesis
    using assms(7) by simp
qed

text \<open>
  The statement at precision 4: the hash value of all ones, and the element 18 of the
  demonstration added to an estimator of sixteen registers.
\<close>

theorem hll_add_idx_in_bounds_witness:
  "unat (hll_add_idx 0xFFFFFFFF 4) < 2 ^ unat (4 :: 32 word) \<and>
   unat (hll_add_idx (integer_hash 18 4) 4) < length (replicate 16 (0 :: 32 word)) \<and>
   (\<exists>s'. hll_add (Some 0) 18 4 (memory_with (Some integer_hash) 4 (replicate 16 0))
            = Inr (HLL_OK, s'))"
  using hll_add_idx_in_bounds
    [where est = "\<lparr>registers = Some 1, precision = 4, hash = Some integer_hash\<rparr>"
       and s = "memory_with (Some integer_hash) 4 (replicate 16 0)" and hp = 0 and a = 1
       and f = integer_hash and regs = "replicate 16 0" and h = "0xFFFFFFFF" and e = 18 and l = 4]
  by (simp add: memory_with_def HLL_PRECISION_MIN_def HLL_PRECISION_MAX_def)

text \<open>
  Claim C4 says that the run statistic is one plus the number of consecutive zero bits of
  the low \<open>p\<close> bits of the hash value and that it lies between 1 and \<open>p + 1\<close>, or is
  at most the scan width of 32 when the low \<open>p\<close> bits hold no set bit. The bound fails:
  the element 18 of the demonstration hashes to \<open>0x3d1cb700\<close>, whose low four bits are
  zero, and \<^verbatim>\<open>hll_add\<close> at precision 4 writes 33 into register 3. The loop runs over
  all 32 positions, counts 32 zero bits, and one is added.
\<close>

theorem hll_add_rank_range_counterexample:
  "hll_add (Some 0) 18 4 (memory_with (Some integer_hash) 4 (replicate 16 0)) =
     Inr (HLL_OK, memory_with (Some integer_hash) 4
        [0, 0, 0, 33, 0, 0, 0, 0, 0, 0, 0, 0, 0, 0, 0, 0]) \<and>
   hll_add_rank (integer_hash 18 4) 4 = 33 \<and>
   \<not> (1 \<le> unat (hll_add_rank (integer_hash 18 4) 4) \<and>
       unat (hll_add_rank (integer_hash 18 4) 4) \<le> unat (4 :: 32 word) + 1) \<and>
   \<not> unat (hll_add_rank (integer_hash 18 4) 4) \<le> 32"
proof -
  have idx: "hll_add_idx 0x3d1cb700 4 = 3"
    by (simp add: hll_add_idx_def drop_bit_eq_div)
  have rank: "hll_add_rank 0x3d1cb700 4 = 33"
    by (simp add: hll_add_rank_def hll_get_hash_zeros_def hll_get_hash_zeros_loop.simps)
  show ?thesis
    by (simp add: integer_hash_18 idx rank hll_add_def memory_with_def reg_load_def reg_store_def
        hll_max_def HLL_OK_def replicate_16)
qed


text \<open>
  Claim C4, amended. For every hash value \<open>h\<close> and every precision \<open>p\<close> from 4 to 16,
  the run statistic that \<^verbatim>\<open>hll_add\<close> writes (through \<^verbatim>\<open>hll_max\<close>) into the selected
  register is one plus the number of consecutive zero bits of the low \<open>p\<close> bits of
  \<open>h\<close>, scanning from bit 0 upward. It lies between 1 and \<open>p\<close> when one of the low
  \<open>p\<close> bits is set, and it is 33, the scan width plus one, when none is.
\<close>

theorem hll_add_rank_zero_run:
  assumes "HLL_PRECISION_MIN \<le> precision est" "precision est \<le> HLL_PRECISION_MAX"
    and "objects s hp = Some est" "registers est = Some a" "hash est = Some f"
    and "arrays s a = Some regs" "length regs = 2 ^ unat (precision est)"
  shows "unat (hll_add_rank h (precision est)) = 1 + zero_run (take_bit (unat (precision est)) h) \<and>
         (if take_bit (unat (precision est)) h = 0 then unat (hll_add_rank h (precision est)) = 33
          else 1 \<le> unat (hll_add_rank h (precision est)) \<and>
               unat (hll_add_rank h (precision est)) \<le> unat (precision est)) \<and>
         hll_add (Some hp) e l s =
           Inr (HLL_OK, s\<lparr>arrays := (arrays s)
                  (a \<mapsto> regs[unat (hll_add_idx (f e l) (precision est)) :=
                            hll_max (regs ! unat (hll_add_idx (f e l) (precision est)))
                              (hll_add_rank (f e l) (precision est))])\<rparr>)"
proof -
  let ?p = "unat (precision est)"
  have rank: "unat (hll_add_rank h (precision est)) = 1 + zero_run (take_bit ?p h)"
    by (rule hll_add_rank_unat)
  have "unat (hll_add_rank h (precision est)) = 33" if "take_bit ?p h = 0"
    using that by (simp add: rank zero_run_0)
  moreover have "1 \<le> unat (hll_add_rank h (precision est)) \<and>
      unat (hll_add_rank h (precision est)) \<le> ?p" if "take_bit ?p h \<noteq> 0"
    using zero_run_take_bit [OF that] by (simp add: rank)
  ultimately show ?thesis
    using rank hll_add_initialized [OF assms(3-7) assms(2)] by simp
qed

text \<open>The statement at precision 4, for the hash value 24 and the element 18.\<close>

theorem hll_add_rank_zero_run_witness:
  "unat (hll_add_rank 24 4) = 1 + zero_run (take_bit (unat (4 :: 32 word)) 24) \<and>
   (if take_bit (unat (4 :: 32 word)) (24 :: 32 word) = 0 then unat (hll_add_rank 24 4) = 33
    else 1 \<le> unat (hll_add_rank 24 4) \<and> unat (hll_add_rank 24 4) \<le> unat (4 :: 32 word)) \<and>
   hll_add (Some 0) 18 4 (memory_with (Some integer_hash) 4 (replicate 16 0)) =
     Inr (HLL_OK, (memory_with (Some integer_hash) 4 (replicate 16 0))
        \<lparr>arrays := (arrays (memory_with (Some integer_hash) 4 (replicate 16 0)))
           (1 \<mapsto> (replicate 16 0)[unat (hll_add_idx (integer_hash 18 4) 4) :=
                   hll_max (replicate 16 0 ! unat (hll_add_idx (integer_hash 18 4) 4))
                     (hll_add_rank (integer_hash 18 4) 4)])\<rparr>)"
  using hll_add_rank_zero_run
    [where est = "\<lparr>registers = Some 1, precision = 4, hash = Some integer_hash\<rparr>"
       and s = "memory_with (Some integer_hash) 4 (replicate 16 0)" and hp = 0 and a = 1
       and f = integer_hash and regs = "replicate 16 0" and h = 24 and e = 18 and l = 4]
  by (simp add: memory_with_def HLL_PRECISION_MIN_def HLL_PRECISION_MAX_def)

section \<open>What add and merge do to the registers\<close>

lemma hll_max_max: "hll_max a b = max a b"
  by (auto simp: hll_max_def max_def)

lemma length_hll_add_regs [simp]: "length (hll_add_regs f p x regs) = length regs"
  by (simp add: hll_add_regs_def Let_def)

lemma max_update_commute:
  fixes regs :: "hll_hash_t list"
  shows "(regs[i := max (regs ! i) u])[j := max (regs[i := max (regs ! i) u] ! j) v] =
         (regs[j := max (regs ! j) v])[i := max (regs[j := max (regs ! j) v] ! i) u]"
proof (cases "i = j")
  case False
  then show ?thesis
    by (simp add: list_update_swap)
next
  case True
  show ?thesis
  proof (cases "i < length regs")
    case True
    with \<open>i = j\<close> show ?thesis
      by (simp add: max.assoc max.commute max.left_commute)
  next
    case False
    with \<open>i = j\<close> show ?thesis by (simp add: list_update_beyond)
  qed
qed

lemma hll_add_regs_commute:
  "hll_add_regs f p x (hll_add_regs f p y regs) = hll_add_regs f p y (hll_add_regs f p x regs)"
  unfolding hll_add_regs_def Let_def hll_max_max
  by (rule max_update_commute)

lemma list_all2_le_update:
  fixes regs :: "hll_hash_t list"
  shows "list_all2 (\<le>) regs (regs[i := max (regs ! i) v])"
  unfolding list_all2_conv_all_nth
proof (intro conjI allI impI)
  fix j
  assume "j < length regs"
  then show "regs ! j \<le> regs[i := max (regs ! i) v] ! j"
    by (cases "j = i") simp_all
qed simp

lemma memory_update_idem: "arrays s a = Some regs \<Longrightarrow> s\<lparr>arrays := (arrays s)(a \<mapsto> regs)\<rparr> = s"
  by (cases s) (simp add: fun_upd_idem)

lemma hll_add_effect:
  assumes "objects s hp = Some est" "registers est = Some a" "hash est = Some f"
    and "arrays s a = Some regs" "length regs = 2 ^ unat (precision est)"
    and "precision est \<le> HLL_PRECISION_MAX"
  shows "hll_add (Some hp) e l s =
           Inr (HLL_OK, s\<lparr>arrays := (arrays s)(a \<mapsto> hll_add_regs f (precision est) (e, l) regs)\<rparr>)"
  using hll_add_initialized [OF assms] by (simp add: hll_add_regs_def Let_def)

lemma hll_add_all_effect:
  assumes "objects s hp = Some est" "registers est = Some a" "hash est = Some f"
    and "arrays s a = Some regs" "length regs = 2 ^ unat (precision est)"
    and "precision est \<le> HLL_PRECISION_MAX"
  shows "hll_add_all (Some hp) xs s =
           Inr (replicate (length xs) HLL_OK,
                s\<lparr>arrays := (arrays s)(a \<mapsto> fold (hll_add_regs f (precision est)) xs regs)\<rparr>)"
  using assms
proof (induction xs arbitrary: s regs)
  case Nil
  show ?case
    unfolding fold_Nil id_apply memory_update_idem [OF Nil.prems(4)] by simp
next
  case (Cons x xs)
  let ?regs1 = "hll_add_regs f (precision est) x regs"
  let ?s1 = "s\<lparr>arrays := (arrays s)(a \<mapsto> ?regs1)\<rparr>"
  have step: "hll_add (Some hp) (fst x) (snd x) s = Inr (HLL_OK, ?s1)"
    using hll_add_effect [OF Cons.prems, of "fst x" "snd x"] by simp
  have "hll_add_all (Some hp) xs ?s1 =
          Inr (replicate (length xs) HLL_OK,
               ?s1\<lparr>arrays := (arrays ?s1)(a \<mapsto> fold (hll_add_regs f (precision est)) xs ?regs1)\<rparr>)"
    using Cons.prems by (intro Cons.IH) simp_all
  then have rest: "hll_add_all (Some hp) xs ?s1 =
          Inr (replicate (length xs) HLL_OK,
               s\<lparr>arrays := (arrays s)(a \<mapsto> fold (hll_add_regs f (precision est)) xs ?regs1)\<rparr>)"
    by simp
  have "hll_add_all (Some hp) (x # xs) s =
          Inr (HLL_OK # replicate (length xs) HLL_OK,
               s\<lparr>arrays := (arrays s)(a \<mapsto> fold (hll_add_regs f (precision est)) xs ?regs1)\<rparr>)"
    by (simp only: hll_add_all.simps step rest sum.case fst_conv snd_conv)
  then show ?case
    by (simp only: fold_simps list.size replicate.simps add_Suc_right add_0_right)
qed

lemma hll_add_not_decreasing:
  assumes "hll_add hll e l s = Inr (err, s')" "arrays s a = Some regs"
  shows "\<exists>regs'. arrays s' a = Some regs' \<and> list_all2 (\<le>) regs regs'"
  using assms list_all2_le_update
  by (auto simp: hll_add_def reg_load_def reg_store_def Let_def hll_max_max list_all2_refl
      split: option.splits sum.splits if_splits)

lemma hll_merge_loop_not_decreasing:
  "hll_merge_loop da sa nd ns i s = Inr s' \<Longrightarrow> arrays s a = Some regs \<Longrightarrow>
     \<exists>regs'. arrays s' a = Some regs' \<and> list_all2 (\<le>) regs regs'"
proof (induction da sa nd ns i s arbitrary: regs rule: hll_merge_loop.induct)
  case (1 da sa nd ns i s)
  show ?case
  proof (cases "i < nd \<and> i < ns")
    case False
    with "1.prems" show ?thesis
      by (subst (asm) hll_merge_loop.simps) (auto simp: list_all2_refl)
  next
    case True
    with "1.prems"(1) obtain x y s1 where
      x: "reg_load s da i = Inr x" and y: "reg_load s sa i = Inr y"
      and s1: "reg_store s da i (hll_max x y) = Inr s1"
      and rest: "hll_merge_loop da sa nd ns (Suc i) s1 = Inr s'"
      by (subst (asm) hll_merge_loop.simps) (auto split: sum.splits)
    have "\<exists>regs1. arrays s1 a = Some regs1 \<and> list_all2 (\<le>) regs regs1"
    proof (cases "a = da")
      case True
      with x s1 "1.prems"(2) show ?thesis
        using list_all2_le_update [of regs i y]
        by (auto simp: reg_load_def reg_store_def hll_max_max split: option.splits if_splits)
    next
      case False
      with s1 "1.prems"(2) show ?thesis
        by (auto simp: reg_store_def list_all2_refl split: option.splits if_splits)
    qed
    then obtain regs1 where
      regs1: "arrays s1 a = Some regs1" "list_all2 (\<le>) regs regs1"
      by blast
    from "1.IH" [OF True x y s1 rest regs1(1)] obtain regs' where
      "arrays s' a = Some regs'" "list_all2 (\<le>) regs1 regs'"
      by blast
    with regs1(2) show ?thesis
      by (auto intro: list_all2_trans [where ?P1.0 = "(\<le>)" and ?P2.0 = "(\<le>)"])
  qed
qed

lemma hll_merge_not_decreasing:
  assumes "hll_merge hdst hsrc s = Inr (err, s')" "arrays s a = Some regs"
  shows "\<exists>regs'. arrays s' a = Some regs' \<and> list_all2 (\<le>) regs regs'"
  using assms hll_merge_loop_not_decreasing
  by (auto simp: hll_merge_def list_all2_refl split: option.splits sum.splits)

lemma unat_shift:
  assumes "n < 32"
  shows "unat (push_bit n 1 :: 32 word) = 2 ^ n"
proof -
  have lt: "(2 :: nat) ^ n < 2 ^ 32"
    using assms by (intro power_strict_increasing) simp_all
  have "(push_bit n 1 :: 32 word) = of_nat (2 ^ n)"
    by simp
  then have "unat (push_bit n 1 :: 32 word) = 2 ^ n mod 2 ^ 32"
    by (simp only: unat_of_nat) simp
  with lt show ?thesis by simp
qed

lemma shift_bound_eq:
  assumes "unat p < 31"
  shows "shift_bound p = 2 ^ unat p"
proof -
  let ?n = "unat p"
  have "(2 :: int) ^ ?n < 2 ^ 31"
    using assms by (intro power_strict_increasing) simp_all
  moreover have "uint (push_bit ?n 1 :: 32 word) = 2 ^ ?n"
    using unat_shift [of ?n] assms by (simp only: uint_nat) simp
  moreover have "signed_take_bit 31 ((2 :: int) ^ ?n) = 2 ^ ?n"
    using \<open>(2 :: int) ^ ?n < 2 ^ 31\<close>
    by (intro signed_take_bit_int_eq_self) (simp_all add: order_trans [of _ 0])
  ultimately have "sint (push_bit ?n 1 :: 32 word) = 2 ^ ?n"
    by (simp only: sint_uint) simp
  then show ?thesis by (simp add: shift_bound_def)
qed

lemma hll_add_element_18: "hll_add (Some 0) 18 4 (memory_with (Some integer_hash) 4 (replicate 16 0)) =
     Inr (HLL_OK, memory_with (Some integer_hash) 4
        [0, 0, 0, 33, 0, 0, 0, 0, 0, 0, 0, 0, 0, 0, 0, 0])"
proof -
  have idx: "hll_add_idx 0x3d1cb700 4 = 3"
    by (simp add: hll_add_idx_def drop_bit_eq_div)
  have rank: "hll_add_rank 0x3d1cb700 4 = 33"
    by (simp add: hll_add_rank_def hll_get_hash_zeros_def hll_get_hash_zeros_loop.simps)
  show ?thesis
    by (simp add: integer_hash_18 idx rank hll_add_def memory_with_def reg_load_def reg_store_def
        hll_max_def HLL_OK_def replicate_16)
qed

text \<open>
  Claim C5. No successful \<^verbatim>\<open>hll_add\<close> and no successful \<^verbatim>\<open>hll_merge\<close> decreases a
  register: every register array that is live before the call is live after it, has the
  same length, and each of its registers is at least what it was.
\<close>

theorem registers_never_decrease:
  assumes "hll_add hll e l s = Inr (HLL_OK, s') \<or> hll_merge hll_dest hll_src s = Inr (HLL_OK, s')"
    and "arrays s a = Some regs"
  shows "\<exists>regs'. arrays s' a = Some regs' \<and> length regs' = length regs \<and>
           list_all2 (\<le>) regs regs'"
proof -
  from assms(1) have "\<exists>regs'. arrays s' a = Some regs' \<and> list_all2 (\<le>) regs regs'"
  proof
    assume "hll_add hll e l s = Inr (HLL_OK, s')"
    then show ?thesis using assms(2) by (rule hll_add_not_decreasing)
  next
    assume "hll_merge hll_dest hll_src s = Inr (HLL_OK, s')"
    then show ?thesis using assms(2) by (rule hll_merge_not_decreasing)
  qed
  then show ?thesis
    using list_all2_lengthD [of "(\<le>)" regs] by fastforce
qed

text \<open>The element 18 added to a fresh estimator of precision 4: register 3 grows to 33.\<close>

theorem registers_never_decrease_witness:
  "hll_add (Some 0) 18 4 (memory_with (Some integer_hash) 4 (replicate 16 0)) =
     Inr (HLL_OK, memory_with (Some integer_hash) 4
        [0, 0, 0, 33, 0, 0, 0, 0, 0, 0, 0, 0, 0, 0, 0, 0]) \<and>
   arrays (memory_with (Some integer_hash) 4 (replicate 16 0)) 1 = Some (replicate 16 0) \<and>
   (\<exists>regs'. arrays (memory_with (Some integer_hash) 4
        [0, 0, 0, 33, 0, 0, 0, 0, 0, 0, 0, 0, 0, 0, 0, 0]) 1 = Some regs' \<and>
      length regs' = length (replicate 16 (0 :: 32 word)) \<and>
      list_all2 (\<le>) (replicate 16 0) regs')"
proof -
  have a: "arrays (memory_with (Some integer_hash) (4 :: 32 word) (replicate 16 0)) 1 = Some (replicate 16 0)"
    by (simp add: memory_with_def)
  from registers_never_decrease [OF disjI1 [OF hll_add_element_18] a] hll_add_element_18 a
  show ?thesis by blast
qed

section \<open>Construction, order of additions, merge\<close>

lemma hll_init_impl_ok:
  assumes "hll_init_impl (Some hp) (Some t) (Some a) s0 = Inr (HLL_OK, s)"
  shows "objects s hp = Some (t\<lparr>registers := Some a\<rparr>) \<and>
         arrays s a = Some (replicate (2 ^ unat (precision t)) 0) \<and>
         HLL_PRECISION_MIN \<le> precision t \<and> precision t \<le> HLL_PRECISION_MAX"
proof -
  from assms have range: "HLL_PRECISION_MIN \<le> precision t" "precision t \<le> HLL_PRECISION_MAX"
    by (auto simp: hll_init_impl_def Let_def HLL_OK_def HLL_ERROR_INVALID_PRECISION_def
        split: option.splits if_splits)
  then have "unat (precision t) < 32"
    by (simp add: HLL_PRECISION_MAX_def word_le_nat_alt)
  then have len: "unat (push_bit (unat (precision t)) 1 :: 32 word) = 2 ^ unat (precision t)"
    by (rule unat_shift)
  then have len: "unat ((2 :: 32 word) ^ unat (precision t)) = 2 ^ unat (precision t)"
    by simp
  from assms range show ?thesis
    by (auto simp: hll_init_impl_def Let_def len split: option.splits if_splits)
qed

lemma length_merge_regs [simp]: "length (merge_regs i n d s) = length d"
  by (simp add: merge_regs_def)

lemma nth_merge_regs:
  "j < length d \<Longrightarrow>
     merge_regs i n d s ! j = (if i \<le> j \<and> j < n then max (d ! j) (s ! j) else d ! j)"
  by (simp add: merge_regs_def)

lemma merge_regs_done: "n \<le> i \<Longrightarrow> merge_regs i n d s = d"
  by (rule nth_equalityI) (auto simp: nth_merge_regs)

lemma merge_regs_self: "merge_regs i n d d = d"
  by (rule nth_equalityI) (simp_all add: nth_merge_regs)

lemma merge_regs_step:
  assumes "i < n" "i < length d"
  shows "merge_regs (Suc i) n (d[i := max (d ! i) (s ! i)]) s = merge_regs i n d s"
proof (rule nth_equalityI)
  fix j
  assume "j < length (merge_regs (Suc i) n (d[i := max (d ! i) (s ! i)]) s)"
  then have j: "j < length d" by simp
  show "merge_regs (Suc i) n (d[i := max (d ! i) (s ! i)]) s ! j = merge_regs i n d s ! j"
  proof (cases "j = i")
    case True
    with assms j show ?thesis by (simp add: nth_merge_regs)
  next
    case False
    with j show ?thesis by (auto simp: nth_merge_regs)
  qed
qed simp

lemma memory_update_again:
  "(s\<lparr>arrays := (arrays s)(a \<mapsto> r1)\<rparr>)\<lparr>arrays := (arrays (s\<lparr>arrays := (arrays s)(a \<mapsto> r1)\<rparr>))(a \<mapsto> r2)\<rparr>
     = s\<lparr>arrays := (arrays s)(a \<mapsto> r2)\<rparr>"
  by simp

lemma hll_merge_loop_effect:
  "arrays s da = Some dregs \<Longrightarrow> arrays s sa = Some sregs \<Longrightarrow>
   min nd ns \<le> length dregs \<Longrightarrow> min nd ns \<le> length sregs \<Longrightarrow>
     hll_merge_loop da sa nd ns i s =
       Inr (s\<lparr>arrays := (arrays s)(da \<mapsto> merge_regs i (min nd ns) dregs sregs)\<rparr>)"
proof (induction da sa nd ns i s arbitrary: dregs rule: hll_merge_loop.induct)
  case (1 da sa nd ns i s)
  show ?case
  proof (cases "i < nd \<and> i < ns")
    case False
    then have "merge_regs i (min nd ns) dregs sregs = dregs"
      by (intro merge_regs_done) auto
    with "1.prems"(1) have "s\<lparr>arrays := (arrays s)(da \<mapsto> merge_regs i (min nd ns) dregs sregs)\<rparr> = s"
      by (simp only: memory_update_idem)
    moreover from False have "hll_merge_loop da sa nd ns i s = Inr s"
      by (subst hll_merge_loop.simps) (simp only: if_False)
    ultimately show ?thesis by (simp only:)
  next
    case True
    then have i: "i < min nd ns" by simp
    with "1.prems"(3,4) have id: "i < length dregs" and "i < length sregs"
      by linarith+
    let ?v = "max (dregs ! i) (sregs ! i)"
    let ?s1 = "s\<lparr>arrays := (arrays s)(da \<mapsto> dregs[i := ?v])\<rparr>"
    have x: "reg_load s da i = Inr (dregs ! i)"
      using "1.prems"(1) id by (simp add: reg_load_def)
    have y: "reg_load s sa i = Inr (sregs ! i)"
      using "1.prems"(2) \<open>i < length sregs\<close> by (simp add: reg_load_def)
    have st: "reg_store s da i (hll_max (dregs ! i) (sregs ! i)) = Inr ?s1"
      using "1.prems"(1) id by (simp add: reg_store_def hll_max_max)
    have src1: "arrays ?s1 sa = Some sregs"
    proof (cases "sa = da")
      case True
      with "1.prems"(1,2) have "sregs = dregs" by simp
      with True show ?thesis by simp
    next
      case False
      with "1.prems"(2) show ?thesis by simp
    qed
    have "hll_merge_loop da sa nd ns (Suc i) ?s1 =
            Inr (?s1\<lparr>arrays := (arrays ?s1)
                   (da \<mapsto> merge_regs (Suc i) (min nd ns) (dregs[i := ?v]) sregs)\<rparr>)"
      using "1.prems"(3,4) by (intro "1.IH" [OF True x y st] src1) simp_all
    then have "hll_merge_loop da sa nd ns (Suc i) ?s1 =
            Inr (s\<lparr>arrays := (arrays s)(da \<mapsto> merge_regs i (min nd ns) dregs sregs)\<rparr>)"
      by (simp only: memory_update_again merge_regs_step [OF i id])
    with True x y st show ?thesis
      by (subst hll_merge_loop.simps) (simp only: if_True sum.case simp_thms)
  qed
qed

text \<open>
  Claim C9. For a fixed hash function and precision, adding the same multiset of
  elements to a freshly initialised estimator in any order gives the same registers:
  for two sequences with the same elements, counted with multiplicity, every
  \<^verbatim>\<open>hll_add\<close> of either run returns \<^verbatim>\<open>HLL_OK\<close> and both runs end in the same memory.
\<close>

theorem hll_add_order_independent:
  assumes "hll_init_impl (Some hp) (Some t) (Some a) s0 = Inr (HLL_OK, s)"
    and "hash t = Some f" and "mset xs = mset ys"
  shows "\<exists>s'. hll_add_all (Some hp) xs s = Inr (replicate (length xs) HLL_OK, s') \<and>
              hll_add_all (Some hp) ys s = Inr (replicate (length ys) HLL_OK, s')"
proof -
  let ?est = "t\<lparr>registers := Some a\<rparr>"
  let ?regs = "replicate (2 ^ unat (precision t)) (0 :: 32 word)"
  let ?F = "hll_add_regs f (precision t)"
  from hll_init_impl_ok [OF assms(1)]
  have est: "objects s hp = Some ?est" and regs: "arrays s a = Some ?regs"
    and max: "precision ?est \<le> HLL_PRECISION_MAX"
    by simp_all
  have run: "hll_add_all (Some hp) zs s =
      Inr (replicate (length zs) HLL_OK, s\<lparr>arrays := (arrays s)(a \<mapsto> fold ?F zs ?regs)\<rparr>)" for zs
    using hll_add_all_effect [OF est _ _ regs _ max, of f zs] assms(2) by simp
  have "fold ?F xs = fold ?F ys"
    using assms(3) by (intro fold_multiset_equiv) (auto simp: fun_eq_iff hll_add_regs_commute)
  then show ?thesis
    using run [of xs] run [of ys] by simp
qed

lemma hll_init_template4: "hll_init_impl (Some 0) (Some template4) (Some 1) blank_memory =
    Inr (HLL_OK, memory_with (Some integer_hash) 4 (replicate 16 0))"
  by (simp add: hll_init_impl_def blank_memory_def template4_def memory_with_def
      HLL_PRECISION_MIN_def HLL_PRECISION_MAX_def Let_def)

text \<open>
  Three additions to the estimator that \<^verbatim>\<open>hll_init(&hll, .precision = 4)\<close> builds, in
  two orders.
\<close>

theorem hll_add_order_independent_witness:
  "hll_init_impl (Some 0) (Some template4) (Some 1) blank_memory =
     Inr (HLL_OK, memory_with (Some integer_hash) 4 (replicate 16 0)) \<and>
   hash template4 = Some integer_hash \<and>
   mset [(18 :: 32 word, 4 :: 32 word), (5, 4), (18, 4)] = mset [(5, 4), (18, 4), (18, 4)] \<and>
   (\<exists>s'. hll_add_all (Some 0) [(18, 4), (5, 4), (18, 4)]
             (memory_with (Some integer_hash) 4 (replicate 16 0)) =
             Inr (replicate (length [(18 :: 32 word, 4 :: 32 word), (5, 4), (18, 4)]) HLL_OK, s') \<and>
         hll_add_all (Some 0) [(5, 4), (18, 4), (18, 4)]
             (memory_with (Some integer_hash) 4 (replicate 16 0)) =
             Inr (replicate (length [(5 :: 32 word, 4 :: 32 word), (18, 4), (18, 4)]) HLL_OK, s'))"
proof -
  have h: "hash template4 = Some integer_hash"
    by (simp add: template4_def)
  have m: "mset [(18 :: 32 word, 4 :: 32 word), (5, 4), (18, 4)] = mset [(5, 4), (18, 4), (18, 4)]"
    by simp
  from hll_add_order_independent [OF hll_init_template4 h m] hll_init_template4 h m show ?thesis
    by blast
qed

text \<open>
  Claim C6. For two initialised estimators, \<^verbatim>\<open>hll_merge(dest, src)\<close> returns \<^verbatim>\<open>HLL_OK\<close>
  and sets every register of \<open>dest\<close> with index below the smaller of the two register
  counts to the maximum of the two registers at that index; the other registers of
  \<open>dest\<close>, every estimator object, the registers of \<open>src\<close> and every other array stay
  as they were. The two handles may name the same estimator.
\<close>

theorem hll_merge_registerwise_max:
  assumes "objects s pd = Some hdst" "registers hdst = Some da" "arrays s da = Some dregs"
    and "length dregs = 2 ^ unat (precision hdst)"
    and "HLL_PRECISION_MIN \<le> precision hdst" "precision hdst \<le> HLL_PRECISION_MAX"
    and "objects s ps = Some hsrc" "registers hsrc = Some sa" "arrays s sa = Some sregs"
    and "length sregs = 2 ^ unat (precision hsrc)"
    and "HLL_PRECISION_MIN \<le> precision hsrc" "precision hsrc \<le> HLL_PRECISION_MAX"
  shows "\<exists>s' dregs'. hll_merge (Some pd) (Some ps) s = Inr (HLL_OK, s') \<and>
           arrays s' da = Some dregs' \<and> length dregs' = length dregs \<and>
           (\<forall>i < length dregs.
              dregs' ! i =
                (if i < min (2 ^ unat (precision hdst)) (2 ^ unat (precision hsrc))
                 then max (dregs ! i) (sregs ! i) else dregs ! i)) \<and>
           objects s' = objects s \<and> arrays s' sa = Some sregs \<and>
           (\<forall>b. b \<noteq> da \<longrightarrow> arrays s' b = arrays s b)"
proof -
  let ?nd = "2 ^ unat (precision hdst) :: nat" and ?ns = "2 ^ unat (precision hsrc) :: nat"
  let ?dregs' = "merge_regs 0 (min ?nd ?ns) dregs sregs"
  let ?s' = "s\<lparr>arrays := (arrays s)(da \<mapsto> ?dregs')\<rparr>"
  from assms(6,12) have "unat (precision hdst) < 31" "unat (precision hsrc) < 31"
    by (simp_all add: HLL_PRECISION_MAX_def word_le_nat_alt)
  then have bounds: "shift_bound (precision hdst) = ?nd" "shift_bound (precision hsrc) = ?ns"
    by (simp_all add: shift_bound_eq)
  have "hll_merge_loop da sa ?nd ?ns 0 s = Inr ?s'"
    using assms(3,9,4,10) by (intro hll_merge_loop_effect) simp_all
  then have run: "hll_merge (Some pd) (Some ps) s = Inr (HLL_OK, ?s')"
    using assms(1,2,7,8) by (simp add: hll_merge_def bounds)
  have src: "arrays ?s' sa = Some sregs"
  proof (cases "sa = da")
    case True
    with assms(3,9) have "sregs = dregs" by simp
    with True show ?thesis by (simp add: merge_regs_self)
  next
    case False
    with assms(9) show ?thesis by simp
  qed
  have "\<forall>i < length dregs. ?dregs' ! i = (if i < min ?nd ?ns then max (dregs ! i) (sregs ! i) else dregs ! i)"
    by (simp add: nth_merge_regs)
  with run src show ?thesis
    by (intro exI [of _ ?s'] exI [of _ ?dregs']) simp
qed

text \<open>
  A destination of 32 registers, all 1, merged with a source of 16 registers, all 2:
  register 15 becomes 2, register 16 stays 1, and the source keeps its registers.
\<close>

theorem hll_merge_registerwise_max_witness:
  "(\<exists>s' dregs'. hll_merge (Some 0) (Some 1)
        (memory_pair 5 (replicate 32 1) 4 (replicate 16 2) :: (32 word) memory) = Inr (HLL_OK, s') \<and>
      arrays s' 2 = Some dregs' \<and> length dregs' = 32 \<and>
      dregs' ! 15 = 2 \<and> dregs' ! 16 = 1 \<and>
      objects s' = objects (memory_pair 5 (replicate 32 1) 4 (replicate 16 2) :: (32 word) memory) \<and>
      arrays s' 3 = Some (replicate 16 2))"
proof -
  let ?m = "memory_pair 5 (replicate 32 1) 4 (replicate 16 2) :: (32 word) memory"
  let ?hd = "\<lparr>registers = Some 2, precision = 5, hash = None\<rparr> :: (32 word) hll_t"
  let ?hs = "\<lparr>registers = Some 3, precision = 4, hash = None\<rparr> :: (32 word) hll_t"
  have d: "objects ?m 0 = Some ?hd" "registers ?hd = Some 2"
      "arrays ?m 2 = Some (replicate 32 1)"
      "length (replicate 32 (1 :: 32 word)) = 2 ^ unat (precision ?hd)"
      "HLL_PRECISION_MIN \<le> precision ?hd" "precision ?hd \<le> HLL_PRECISION_MAX"
    by (simp_all add: memory_pair_def HLL_PRECISION_MIN_def HLL_PRECISION_MAX_def)
  have s: "objects ?m 1 = Some ?hs" "registers ?hs = Some 3"
      "arrays ?m 3 = Some (replicate 16 2)"
      "length (replicate 16 (2 :: 32 word)) = 2 ^ unat (precision ?hs)"
      "HLL_PRECISION_MIN \<le> precision ?hs" "precision ?hs \<le> HLL_PRECISION_MAX"
    by (simp_all add: memory_pair_def HLL_PRECISION_MIN_def HLL_PRECISION_MAX_def)
  from hll_merge_registerwise_max [OF d s]
  obtain s' dregs' where
    r: "hll_merge (Some 0) (Some 1) ?m = Inr (HLL_OK, s')" "arrays s' 2 = Some dregs'"
      "length dregs' = 32" "objects s' = objects ?m" "arrays s' 3 = Some (replicate 16 2)"
    and nth: "\<forall>i < 32. dregs' ! i =
        (if i < 16 then max (replicate 32 (1 :: 32 word) ! i) (replicate 16 2 ! i)
         else replicate 32 1 ! i)"
    by auto
  from nth have "dregs' ! 15 = 2" "dregs' ! 16 = 1"
    by simp_all
  with r show ?thesis by blast
qed

section \<open>Errors and teardown\<close>

text \<open>
  Claim C7 says that every operation reports an error before it changes any state, and
  that construction with a precision outside 4 to 16 leaves the fields of the destination
  as they were. \<^verbatim>\<open>_hll_init_impl\<close> copies the template into the destination first
  (\<^verbatim>\<open>*hll = *hll_src\<close>) and checks the precision of the destination afterwards:
  \<^verbatim>\<open>hll_init2\<close> with precision 17 on an estimator of precision 4 returns
  \<^verbatim>\<open>HLL_ERROR_INVALID_PRECISION\<close> and leaves the object with precision 17, no hash
  function and no register pointer.
\<close>

theorem hll_init_overwrites_counterexample:
  "hll_init2 (Some 0) 17 (Some 2) (memory_with (Some integer_hash) 4 (replicate 16 0)) =
     Inr (HLL_ERROR_INVALID_PRECISION,
          (memory_with (Some integer_hash) 4 (replicate 16 0))
            \<lparr>objects := (\<lambda>x. None)(0 \<mapsto> \<lparr>registers = None, precision = 17, hash = None\<rparr>)\<rparr>) \<and>
   objects (memory_with (Some integer_hash) 4 (replicate 16 0)) 0 =
     Some \<lparr>registers = Some 1, precision = 4, hash = Some integer_hash\<rparr> \<and>
   \<lparr>registers = None, precision = 17, hash = None\<rparr> \<noteq>
     \<lparr>registers = Some 1, precision = 4, hash = Some integer_hash\<rparr>"
  by (simp add: hll_init2_def hll_init_impl_def memory_with_def HLL_PRECISION_MIN_def
      HLL_PRECISION_MAX_def Let_def)

text \<open>
  Claim C7, amended. \<^verbatim>\<open>hll_destroy\<close>, \<^verbatim>\<open>hll_add\<close> and \<^verbatim>\<open>hll_merge\<close> leave the memory as
  it was whenever they return an error code (\<^verbatim>\<open>hll_count\<close> never writes), and
  \<^verbatim>\<open>_hll_init_impl\<close> with a null destination returns \<^verbatim>\<open>HLL_ERROR_HLL_NULL\<close> and changes
  nothing. When \<^verbatim>\<open>_hll_init_impl\<close> is called with a template whose precision is outside
  4 to 16, it returns \<^verbatim>\<open>HLL_ERROR_INVALID_PRECISION\<close> after it has overwritten the
  fields of the destination with those of the template; no register array is allocated
  or changed.
\<close>

theorem errors_before_mutation:
  "(hll_destroy hll s = Inr (err, s') \<and> err \<noteq> HLL_OK \<longrightarrow> s' = s) \<and>
   (hll_add hll e l s = Inr (err, s') \<and> err \<noteq> HLL_OK \<longrightarrow> s' = s) \<and>
   (hll_merge hll hll_src s = Inr (err, s') \<and> err \<noteq> HLL_OK \<longrightarrow> s' = s) \<and>
   hll_init_impl None tmpl c s = Inr (HLL_ERROR_HLL_NULL, s) \<and>
   (objects s p = Some h0 \<and> (precision t < HLL_PRECISION_MIN \<or> precision t > HLL_PRECISION_MAX) \<longrightarrow>
      hll_init_impl (Some p) (Some t) c s =
        Inr (HLL_ERROR_INVALID_PRECISION, s\<lparr>objects := (objects s)(p \<mapsto> t)\<rparr>)) \<and>
   (objects s p = Some h0 \<and> precision h0 \<noteq> precision t \<and>
      (precision t < HLL_PRECISION_MIN \<or> precision t > HLL_PRECISION_MAX) \<longrightarrow>
      (\<exists>s1. hll_init_impl (Some p) (Some t) c s = Inr (HLL_ERROR_INVALID_PRECISION, s1) \<and>
            objects s1 p = Some t \<and> objects s1 p \<noteq> objects s p \<and> arrays s1 = arrays s))"
  by (auto simp: hll_destroy_def hll_add_def hll_merge_def hll_init_impl_def Let_def
      reg_load_def reg_store_def split: option.splits sum.splits if_splits)

text \<open>
  The statement on the memory whose only object has never been initialised, and for a
  template of precision 3.
\<close>

theorem errors_before_mutation_witness:
  "hll_destroy (Some 0) blank_memory = Inr (HLL_ERROR_HLL_UNINITIALIZED, blank_memory) \<and>
   hll_add (Some 0) 18 4 blank_memory = Inr (HLL_ERROR_HLL_UNINITIALIZED, blank_memory) \<and>
   hll_merge (Some 0) (Some 0) blank_memory = Inr (HLL_ERROR_HLL_UNINITIALIZED, blank_memory) \<and>
   HLL_ERROR_HLL_UNINITIALIZED \<noteq> HLL_OK \<and>
   hll_init_impl None (Some template4) (Some 1) blank_memory = Inr (HLL_ERROR_HLL_NULL, blank_memory) \<and>
   objects blank_memory 0 = Some \<lparr>registers = None, precision = 0, hash = None\<rparr> \<and>
   precision (template4\<lparr>precision := 3\<rparr>) < HLL_PRECISION_MIN \<and>
   hll_init_impl (Some 0) (Some (template4\<lparr>precision := 3\<rparr>)) (Some 1) blank_memory =
     Inr (HLL_ERROR_INVALID_PRECISION,
          blank_memory\<lparr>objects := (objects blank_memory)(0 \<mapsto> template4\<lparr>precision := 3\<rparr>)\<rparr>)"
proof -
  have u: "hll_destroy (Some 0) blank_memory = Inr (HLL_ERROR_HLL_UNINITIALIZED, blank_memory)"
      "hll_add (Some 0) 18 4 blank_memory = Inr (HLL_ERROR_HLL_UNINITIALIZED, blank_memory)"
      "hll_merge (Some 0) (Some 0) blank_memory = Inr (HLL_ERROR_HLL_UNINITIALIZED, blank_memory)"
      "HLL_ERROR_HLL_UNINITIALIZED \<noteq> HLL_OK"
    by (simp_all add: hll_destroy_def hll_add_def hll_merge_def blank_memory_def
        HLL_ERROR_HLL_UNINITIALIZED_def HLL_OK_def)
  have o: "objects blank_memory 0 = Some \<lparr>registers = None, precision = 0, hash = None\<rparr>"
      "precision (template4\<lparr>precision := 3\<rparr>) < HLL_PRECISION_MIN"
    by (simp_all add: blank_memory_def template4_def HLL_PRECISION_MIN_def)
  from errors_before_mutation
    [of "Some 0" blank_memory HLL_ERROR_HLL_UNINITIALIZED blank_memory 18 4 "Some 0"
        "Some template4" "Some 1" 0 "\<lparr>registers = None, precision = 0, hash = None\<rparr>"
        "template4\<lparr>precision := 3\<rparr>"]
    u o
  show ?thesis by simp
qed

text \<open>
  Claim C8 says that a second \<^verbatim>\<open>hll_destroy\<close> on the same estimator returns
  \<^verbatim>\<open>HLL_ERROR_HLL_UNINITIALIZED\<close>. \<^verbatim>\<open>hll_destroy\<close> frees the array and leaves the
  \<^verbatim>\<open>_registers\<close> field pointing to it. After \<^verbatim>\<open>hll_init(&hll, .precision = 4)\<close> and one
  \<^verbatim>\<open>hll_destroy\<close>, the field still holds the address of the freed array, the test for
  \<^verbatim>\<open>NULL\<close> in the second \<^verbatim>\<open>hll_destroy\<close> does not fire, and the array is handed to
  \<^verbatim>\<open>HLL_FREE\<close> a second time.
\<close>

theorem hll_destroy_twice:
  "hll_init_impl (Some 0) (Some template4) (Some 1) blank_memory =
     Inr (HLL_OK, memory_with (Some integer_hash) 4 (replicate 16 0)) \<and>
   hll_destroy (Some 0) (memory_with (Some integer_hash) 4 (replicate 16 0)) =
     Inr (HLL_OK, (memory_with (Some integer_hash) 4 (replicate 16 0))\<lparr>arrays := (\<lambda>x. None)\<rparr>) \<and>
   objects ((memory_with (Some integer_hash) 4 (replicate 16 0))\<lparr>arrays := (\<lambda>x. None)\<rparr>) 0 =
     Some \<lparr>registers = Some 1, precision = 4, hash = Some integer_hash\<rparr> \<and>
   hll_destroy (Some 0)
     ((memory_with (Some integer_hash) 4 (replicate 16 0))\<lparr>arrays := (\<lambda>x. None)\<rparr>) =
     Inl InvalidFree"
  using hll_init_template4 by (simp add: hll_destroy_def memory_with_def)

section \<open>The loops of count\<close>

lemma hll_count_sum_effect:
  "arrays s a = Some regs \<Longrightarrow> unat (registers_len - 1) \<le> length regs \<Longrightarrow>
   i \<le> unat (registers_len - 1) \<Longrightarrow>
     hll_count_sum powf s a registers_len i sm =
       Inr (foldl (\<lambda>acc r. fadd acc (powf (FNum 2) (float_of_uint (- r)))) sm
              (drop i (take (unat (registers_len - 1)) regs)))"
proof (induction powf s a registers_len i sm rule: hll_count_sum.induct)
  case (1 powf s a registers_len i sm)
  let ?n = "unat (registers_len - 1)"
  show ?case
  proof (cases "i < ?n")
    case False
    with "1.prems" show ?thesis
      by (subst hll_count_sum.simps) simp
  next
    case True
    with "1.prems" have i: "i < length regs" by simp
    then have x: "reg_load s a i = Inr (regs ! i)"
      using "1.prems"(1) by (simp add: reg_load_def)
    from True i have "i < length (take ?n regs)" by simp
    then have dr: "drop i (take ?n regs) = regs ! i # drop (Suc i) (take ?n regs)"
      using True by (simp flip: Cons_nth_drop_Suc)
    have "hll_count_sum powf s a registers_len (Suc i)
            (fadd sm (powf (FNum 2) (float_of_uint (- (regs ! i))))) =
          Inr (foldl (\<lambda>acc r. fadd acc (powf (FNum 2) (float_of_uint (- r))))
                 (fadd sm (powf (FNum 2) (float_of_uint (- (regs ! i)))))
                 (drop (Suc i) (take ?n regs)))"
      using True "1.prems" by (intro "1.IH" [OF True x]) simp_all
    with True x show ?thesis
      by (subst hll_count_sum.simps) (simp add: dr)
  qed
qed

lemma hll_count_zeros_effect:
  "arrays s a = Some regs \<Longrightarrow> unat registers_len \<le> length regs \<Longrightarrow> i \<le> unat registers_len \<Longrightarrow>
     hll_count_zeros s a registers_len i num =
       Inr (num + of_nat (length (filter (\<lambda>r. r = 0) (drop i (take (unat registers_len) regs)))))"
proof (induction s a registers_len i num rule: hll_count_zeros.induct)
  case (1 s a registers_len i num)
  let ?n = "unat registers_len"
  show ?case
  proof (cases "i < ?n")
    case False
    with "1.prems" show ?thesis
      by (subst hll_count_zeros.simps) simp
  next
    case True
    with "1.prems" have i: "i < length regs" by simp
    then have x: "reg_load s a i = Inr (regs ! i)"
      using "1.prems"(1) by (simp add: reg_load_def)
    from True i have "i < length (take ?n regs)" by simp
    then have dr: "drop i (take ?n regs) = regs ! i # drop (Suc i) (take ?n regs)"
      using True by (simp flip: Cons_nth_drop_Suc)
    have "hll_count_zeros s a registers_len (Suc i) (if regs ! i = 0 then num + 1 else num) =
          Inr ((if regs ! i = 0 then num + 1 else num) +
               of_nat (length (filter (\<lambda>r. r = 0) (drop (Suc i) (take ?n regs)))))"
      using True "1.prems" by (intro "1.IH" [OF True x]) simp_all
    with True x show ?thesis
      by (subst hll_count_zeros.simps) (simp add: dr)
  qed
qed

lemma unat_registers_len:
  assumes "p \<le> HLL_PRECISION_MAX"
  shows "unat (push_bit (unat p) 1 :: 32 word) = 2 ^ unat p"
    and "unat (push_bit (unat p) 1 - 1 :: 32 word) = 2 ^ unat p - 1"
proof -
  from assms have "unat p < 32"
    by (simp add: HLL_PRECISION_MAX_def word_le_nat_alt)
  then show len: "unat (push_bit (unat p) 1 :: 32 word) = 2 ^ unat p"
    by (rule unat_shift)
  then have "(push_bit (unat p) 1 :: 32 word) \<noteq> 0"
    by (metis power_not_zero unat_0 zero_neq_numeral)
  then have "unat (push_bit (unat p) 1 - 1 :: 32 word) = unat (push_bit (unat p) 1 :: 32 word) - 1"
    by (rule unat_minus_one)
  with len show "unat (push_bit (unat p) 1 - 1 :: 32 word) = 2 ^ unat p - 1"
    by simp
qed

lemma take_as_indices: "n \<le> length xs \<Longrightarrow> take n xs = map ((!) xs) [0..<n]"
  by (rule nth_equalityI) simp_all

text \<open>
  Claim C3. In \<^verbatim>\<open>hll_count\<close>, the sum of the terms \<^verbatim>\<open>HLL_POWF(2, -registers[i])\<close> ranges
  over the first \<open>m - 1\<close> registers only, the indices 0 to \<open>m - 2\<close>: for an
  initialised estimator the loop returns the terms of exactly these registers, added up
  in this order, and whatever value the last register holds, the sum is the same. The
  terms are as the code computes them, for any power function.
\<close>

theorem hll_count_sum_skips_last_register:
  assumes "objects s hp = Some est" "registers est = Some a" "arrays s a = Some regs"
    and "length regs = 2 ^ unat (precision est)"
    and "HLL_PRECISION_MIN \<le> precision est" "precision est \<le> HLL_PRECISION_MAX"
  shows "hll_count_sum powf s a (push_bit (unat (precision est)) 1) 0 (FNum 0) =
           Inr (foldl (\<lambda>acc r. fadd acc (powf (FNum 2) (float_of_uint (- r)))) (FNum 0)
                  (map ((!) regs) [0..<length regs - 1])) \<and>
         hll_count_sum powf (s\<lparr>arrays := (arrays s)(a \<mapsto> regs[length regs - 1 := v])\<rparr>) a
             (push_bit (unat (precision est)) 1) 0 (FNum 0) =
           hll_count_sum powf s a (push_bit (unat (precision est)) 1) 0 (FNum 0)"
proof -
  let ?len = "push_bit (unat (precision est)) 1 :: 32 word"
  let ?s' = "s\<lparr>arrays := (arrays s)(a \<mapsto> regs[length regs - 1 := v])\<rparr>"
  let ?f = "\<lambda>acc r. fadd acc (powf (FNum 2) (float_of_uint (- r)))"
  have n: "unat (?len - 1) = length regs - 1"
    using unat_registers_len(2) [OF assms(6)] assms(4) by simp
  have "hll_count_sum powf s a ?len 0 (FNum 0) =
          Inr (foldl ?f (FNum 0) (drop 0 (take (unat (?len - 1)) regs)))"
    using assms(3) n by (intro hll_count_sum_effect) simp_all
  then have one: "hll_count_sum powf s a ?len 0 (FNum 0) =
      Inr (foldl ?f (FNum 0) (take (length regs - 1) regs))"
    by (simp only: n drop_0)
  have "hll_count_sum powf ?s' a ?len 0 (FNum 0) =
          Inr (foldl ?f (FNum 0)
                 (drop 0 (take (unat (?len - 1)) (regs[length regs - 1 := v]))))"
    using n by (intro hll_count_sum_effect) simp_all
  then have two: "hll_count_sum powf ?s' a ?len 0 (FNum 0) =
      Inr (foldl ?f (FNum 0) (take (length regs - 1) regs))"
    by (simp only: n drop_0 take_update_cancel order_refl)
  from one two show ?thesis
    by (simp only: take_as_indices [of "length regs - 1" regs, OF diff_le_self] simp_thms)
qed

text \<open>
  The estimator of precision 4 that holds the element 18, with \<^verbatim>\<open>powf\<close> on base two;
  the last register is set to 7.
\<close>

theorem hll_count_sum_skips_last_register_witness:
  "hll_count_sum powf_base2 (memory_with (Some integer_hash) 4 regs_after_18) 1
       (push_bit (unat (4 :: 32 word)) 1) 0 (FNum 0) =
     Inr (foldl (\<lambda>acc r. fadd acc (powf_base2 (FNum 2) (float_of_uint (- r)))) (FNum 0)
            (map ((!) regs_after_18) [0..<length regs_after_18 - 1])) \<and>
   hll_count_sum powf_base2
       ((memory_with (Some integer_hash) 4 regs_after_18)
          \<lparr>arrays := (arrays (memory_with (Some integer_hash) 4 regs_after_18))
             (1 \<mapsto> regs_after_18[length regs_after_18 - 1 := 7])\<rparr>) 1
       (push_bit (unat (4 :: 32 word)) 1) 0 (FNum 0) =
     hll_count_sum powf_base2 (memory_with (Some integer_hash) 4 regs_after_18) 1
       (push_bit (unat (4 :: 32 word)) 1) 0 (FNum 0)"
proof -
  let ?est = "\<lparr>registers = Some 1, precision = 4, hash = Some integer_hash\<rparr> :: (32 word) hll_t"
  have h: "objects (memory_with (Some integer_hash) 4 regs_after_18) 0 = Some ?est"
      "registers ?est = Some 1"
      "arrays (memory_with (Some integer_hash) 4 regs_after_18) 1 = Some regs_after_18"
      "length regs_after_18 = 2 ^ unat (precision ?est)"
      "HLL_PRECISION_MIN \<le> precision ?est" "precision ?est \<le> HLL_PRECISION_MAX"
    by (simp_all add: memory_with_def regs_after_18_def HLL_PRECISION_MIN_def HLL_PRECISION_MAX_def)
  have p: "precision ?est = 4" by simp
  from hll_count_sum_skips_last_register [OF h, of powf_base2 7] show ?thesis
    unfolding p .
qed

lemma hll_count_initialized:
  assumes "objects s hp = Some est" "registers est = Some a" "arrays s a = Some regs"
    and "length regs = 2 ^ unat (precision est)" and "precision est \<le> HLL_PRECISION_MAX"
  shows "hll_count powf logf (Some hp) s =
    (let registers_len = push_bit (unat (precision est)) 1;
         sm = foldl (\<lambda>acc r. fadd acc (powf (FNum 2) (float_of_uint (- r)))) (FNum 0)
                (butlast regs);
         estimate = hll_count_estimate registers_len sm;
         num_of_zero_registers = of_nat (length (filter (\<lambda>r. r = 0) regs))
     in if hll_count_small_range estimate registers_len then
          (if num_of_zero_registers = 0 then float_to_int estimate
           else float_to_int
                  (fmul (float_of_uint registers_len)
                     (logf (float_of_uint (registers_len div num_of_zero_registers)))))
        else if ieee_less_eq estimate (round_float (of_int (2 ^ 32 div 30)))
        then float_to_int estimate
        else float_to_int
               (fmul (ieee_neg (round_float (2 ^ 32)))
                  (logf (fsub (FNum 1) (fdiv estimate (round_float (2 ^ 32)))))))"
proof -
  let ?len = "push_bit (unat (precision est)) 1 :: 32 word"
  note n = unat_registers_len [OF assms(5)]
  have "hll_count_sum powf s a ?len 0 (FNum 0) =
      Inr (foldl (\<lambda>acc r. fadd acc (powf (FNum 2) (float_of_uint (- r)))) (FNum 0)
             (drop 0 (take (unat (?len - 1)) regs)))"
    using assms(3,4) n by (intro hll_count_sum_effect) simp_all
  then have sm: "hll_count_sum powf s a ?len 0 (FNum 0) =
      Inr (foldl (\<lambda>acc r. fadd acc (powf (FNum 2) (float_of_uint (- r)))) (FNum 0)
             (butlast regs))"
    using n(2) assms(4) by (simp only: butlast_conv_take drop_0)
  have "hll_count_zeros s a ?len 0 0 =
      Inr (0 + of_nat (length (filter (\<lambda>r. r = 0) (drop 0 (take (unat ?len) regs)))))"
    using assms(3,4) n by (intro hll_count_zeros_effect) simp_all
  then have z: "hll_count_zeros s a ?len 0 0 = Inr (of_nat (length (filter (\<lambda>r. r = 0) regs)))"
    using n(1) assms(4) by simp
  show ?thesis
    using assms(1,2) by (simp add: hll_count_def Let_def sm z del: push_bit_of_1)
qed

section \<open>Count on three estimators of precision 4\<close>

text \<open>
  The floating-point steps of \<^verbatim>\<open>hll_count\<close> on the example register arrays. A register
  \<open>r > 0\<close> enters the sum as \<^verbatim>\<open>powf(2, -r)\<close> with \<open>-r\<close> taken in \<^verbatim>\<open>unsigned int\<close>,
  that is \<open>2\<^sup>3\<^sup>2 - r\<close>; the power overflows to an infinity and so does the sum.
\<close>

lemma sum_all_2:
  "foldl (\<lambda>acc r. fadd acc (powf_base2 (FNum 2) (float_of_uint (- r)))) (FNum 0)
     (butlast regs_all_2) = FPInf"
  by code_simp

lemma sum_0_to_14:
  "foldl (\<lambda>acc r. fadd acc (powf_base2 (FNum 2) (float_of_uint (- r)))) (FNum 0)
     (butlast regs_after_0_to_14) = FPInf"
  by code_simp

lemma estimate_inf: "hll_count_estimate 16 FPInf = FNum 0"
  by code_simp

lemma small_range_0: "hll_count_small_range (FNum 0) 16"
  by code_simp

lemma small_range_32: "\<not> hll_count_small_range (FNum 32) 16"
  by code_simp

lemma small_range_36: "\<not> hll_count_small_range (FNum 36) 16"
  by code_simp

lemma sum_all_1:
  "foldl (\<lambda>acc r. fadd acc (powf_base2 (FNum 2) (float_of_uint (- r)))) (FNum 0)
     (butlast regs_all_1) = FPInf"
  by code_simp

lemma fold_all_1:
  "fold (hll_add_regs integer_hash 4)
     [(1, 4), (2, 4), (7, 4), (8, 4), (12, 4), (13, 4), (16, 4), (19, 4), (21, 4), (25, 4),
      (31, 4), (32, 4), (42, 4), (57, 4), (71, 4), (108, 4)] (replicate 16 0) = regs_all_1"
  by code_simp

lemma float_of_uint_16: "float_of_uint 16 = FNum 16"
  by code_simp

lemma float_of_uint_3: "float_of_uint 3 = FNum 3"
  by code_simp

lemma fold_all_2:
  "fold (hll_add_regs integer_hash 4)
     [(0, 4), (3, 4), (6, 4), (9, 4), (11, 4), (14, 4), (17, 4), (37, 4), (46, 4), (58, 4),
      (65, 4), (72, 4), (84, 4), (211, 4), (276, 4), (371, 4)] (replicate 16 0) = regs_all_2"
  by code_simp

lemma fold_0_to_14:
  "fold (hll_add_regs integer_hash 4)
     [(0, 4), (1, 4), (2, 4), (3, 4), (4, 4), (5, 4), (6, 4), (7, 4), (8, 4), (9, 4),
      (10, 4), (11, 4), (12, 4), (13, 4), (14, 4)] (replicate 16 0) = regs_after_0_to_14"
  by code_simp

lemma memory_with_facts:
  "objects (memory_with f p regs) 0 = Some \<lparr>registers = Some 1, precision = p, hash = f\<rparr>"
  "arrays (memory_with f p regs) 1 = Some regs"
  "(memory_with f p regs)\<lparr>arrays := (arrays (memory_with f p regs))(1 \<mapsto> regs')\<rparr> =
     memory_with f p regs'"
  by (simp_all add: memory_with_def)

lemma memory_with_estimator:
  fixes regs :: "hll_hash_t list"
  assumes "length regs = 16"
  shows "objects (memory_with (Some f) 4 regs) 0 =
           Some \<lparr>registers = Some 1, precision = 4, hash = Some f\<rparr>"
    and "registers \<lparr>registers = Some 1, precision = 4, hash = Some f\<rparr> = Some 1"
    and "hash \<lparr>registers = Some 1, precision = 4 :: 32 word, hash = Some f\<rparr> = Some f"
    and "arrays (memory_with (Some f) 4 regs) 1 = Some regs"
    and "length regs = 2 ^ unat (precision \<lparr>registers = Some 1, precision = 4, hash = Some f\<rparr>)"
    and "precision \<lparr>registers = Some 1, precision = 4, hash = Some f\<rparr> \<le> HLL_PRECISION_MAX"
  using assms by (simp_all add: memory_with_def HLL_PRECISION_MAX_def)

lemma hll_add_all_memory_with:
  assumes "length regs = 16"
  shows "hll_add_all (Some 0) xs (memory_with (Some integer_hash) 4 regs) =
     Inr (replicate (length xs) HLL_OK,
          memory_with (Some integer_hash) 4 (fold (hll_add_regs integer_hash 4) xs regs))"
proof -
  have p: "precision \<lparr>registers = Some 1, precision = 4 :: 32 word, hash = Some integer_hash\<rparr> = 4"
    by simp
  from hll_add_all_effect [OF memory_with_estimator [OF assms, of integer_hash], of xs]
  show ?thesis
    unfolding p memory_with_facts(3) .
qed

lemma registers_len_4: "push_bit (unat (4 :: 32 word)) 1 = (16 :: 32 word)"
  by simp

lemma hll_count_memory_with:
  assumes "length regs = 16"
  shows "hll_count powf logf (Some 0) (memory_with (Some integer_hash) 4 regs) =
    (let registers_len = 16;
         sm = foldl (\<lambda>acc r. fadd acc (powf (FNum 2) (float_of_uint (- r)))) (FNum 0)
                (butlast regs);
         estimate = hll_count_estimate registers_len sm;
         num_of_zero_registers = of_nat (length (filter (\<lambda>r. r = 0) regs))
     in if hll_count_small_range estimate registers_len then
          (if num_of_zero_registers = 0 then float_to_int estimate
           else float_to_int
                  (fmul (float_of_uint registers_len)
                     (logf (float_of_uint (registers_len div num_of_zero_registers)))))
        else if ieee_less_eq estimate (round_float (of_int (2 ^ 32 div 30)))
        then float_to_int estimate
        else float_to_int
               (fmul (ieee_neg (round_float (2 ^ 32)))
                  (logf (fsub (FNum 1) (fdiv estimate (round_float (2 ^ 32)))))))"
proof -
  have p: "precision \<lparr>registers = Some 1, precision = 4 :: 32 word, hash = Some integer_hash\<rparr> = 4"
    by simp
  note h = memory_with_estimator [OF assms, of integer_hash]
  from hll_count_initialized [OF h(1,2,4,5,6), of powf logf]
  show ?thesis
    unfolding p registers_len_4 .
qed

text \<open>
  Claim C1 says that \<^verbatim>\<open>hll_count\<close> takes the small-range branch exactly when the raw
  estimate \<open>E = alpha * m * m / Z\<close> is at most \<open>5/2 * m\<close>. After
  \<^verbatim>\<open>hll_init(&hll, .precision = 4)\<close> and sixteen additions that leave 2 in every
  register, \<open>E\<close> is \<open>43.072\<close> (and larger still over fifteen registers), above
  \<open>5/2 * 16 = 40\<close>. The code computes the infinite sum, the estimate 0, takes the
  small-range branch, finds no zero register and returns 0. The guard itself is
  \<^verbatim>\<open>estimate < 5 / 2 * registers_len\<close> with an integer quotient: estimates of 32 and of
  36 fail it for sixteen registers.
\<close>

theorem hll_count_small_range_all_2:
  "hll_add_all (Some 0)
     [(0, 4), (3, 4), (6, 4), (9, 4), (11, 4), (14, 4), (17, 4), (37, 4), (46, 4), (58, 4),
      (65, 4), (72, 4), (84, 4), (211, 4), (276, 4), (371, 4)]
     (memory_with (Some integer_hash) 4 (replicate 16 0)) =
     Inr (replicate 16 HLL_OK, memory_with (Some integer_hash) 4 regs_all_2) \<and>
   hll_count_sum powf_base2 (memory_with (Some integer_hash) 4 regs_all_2) 1 16 0 (FNum 0) =
     Inr FPInf \<and>
   hll_count_estimate 16 FPInf = FNum 0 \<and>
   hll_count_small_range (FNum 0) 16 \<and>
   hll_count powf_base2 logf (Some 0) (memory_with (Some integer_hash) 4 regs_all_2) = Inr 0 \<and>
   \<not> hll_count_small_range (FNum 32) 16 \<and> \<not> hll_count_small_range (FNum 36) 16 \<and>
   spec_E 16 regs_all_2 = 5384 / 125 \<and>
   \<not> spec_E 16 regs_all_2 \<le> 5 / 2 * 16 \<and>
   \<not> spec_E 16 (butlast regs_all_2) \<le> 5 / 2 * 16"
proof -
  have len: "length regs_all_2 = 16" "length (replicate 16 (0 :: 32 word)) = 16"
    by (simp_all add: regs_all_2_def)
  have adds: "hll_add_all (Some 0)
     [(0, 4), (3, 4), (6, 4), (9, 4), (11, 4), (14, 4), (17, 4), (37, 4), (46, 4), (58, 4),
      (65, 4), (72, 4), (84, 4), (211, 4), (276, 4), (371, 4)]
     (memory_with (Some integer_hash) 4 (replicate 16 0)) =
     Inr (replicate 16 HLL_OK, memory_with (Some integer_hash) 4 regs_all_2)"
  proof -
    have l: "length [(0 :: 32 word, 4 :: 32 word), (3, 4), (6, 4), (9, 4), (11, 4), (14, 4),
        (17, 4), (37, 4), (46, 4), (58, 4), (65, 4), (72, 4), (84, 4), (211, 4), (276, 4),
        (371, 4)] = 16"
      by simp
    from hll_add_all_memory_with [OF len(2)] show ?thesis
      unfolding l [symmetric] fold_all_2 [symmetric] .
  qed
  have "hll_count_sum powf_base2 (memory_with (Some integer_hash) 4 regs_all_2) 1 16 0 (FNum 0) =
      Inr (foldl (\<lambda>acc r. fadd acc (powf_base2 (FNum 2) (float_of_uint (- r)))) (FNum 0)
             (drop 0 (take (unat (16 - 1 :: 32 word)) regs_all_2)))"
    by (rule hll_count_sum_effect) (simp_all add: memory_with_def len)
  also have "drop 0 (take (unat (16 - 1 :: 32 word)) regs_all_2) = butlast regs_all_2"
    by (simp add: butlast_conv_take len)
  finally have sm: "hll_count_sum powf_base2 (memory_with (Some integer_hash) 4 regs_all_2) 1 16 0
      (FNum 0) = Inr FPInf"
    by (simp only: sum_all_2)
  have zeros: "length (filter (\<lambda>r. r = 0) regs_all_2) = 0"
    by (simp add: regs_all_2_def)
  have cnt: "hll_count powf_base2 logf (Some 0) (memory_with (Some integer_hash) 4 regs_all_2) = Inr 0"
    by (simp add: hll_count_memory_with [OF len(1)] Let_def sum_all_2 estimate_inf
        small_range_0 zeros float_to_int_def)
  have spec: "spec_E 16 regs_all_2 = 5384 / 125" "\<not> spec_E 16 (butlast regs_all_2) \<le> 5 / 2 * 16"
    by (simp_all add: spec_E_def spec_Z_def spec_alpha_def regs_all_2_def)
  from adds sm cnt spec show ?thesis
    by (simp add: estimate_inf small_range_0 small_range_32 small_range_36)
qed

text \<open>
  Claim C2 says that in the small-range regime with \<open>V > 0\<close> zero registers
  \<^verbatim>\<open>hll_count\<close> returns \<open>m * ln (m / V)\<close> for the exact ratio \<open>m / V\<close>, and the raw
  estimate when \<open>V = 0\<close>. After the elements 0 to 14, five of the sixteen registers are
  zero and \<open>E\<close> is below 40; the code passes \<^verbatim>\<open>registers_len / num_of_zero_registers\<close>,
  the \<^verbatim>\<open>unsigned int\<close> quotient \<open>16 div 5 = 3\<close>, to \<^verbatim>\<open>HLL_LOGF\<close> and returns the
  integral part of \<open>16 * logf(3)\<close>, which is below \<open>16 * ln (16 / 5)\<close>. With 1 in
  every register no register is zero, \<open>E\<close> is \<open>21.536\<close>, and the code returns 0.
\<close>

theorem hll_count_linear_counting_quotient:
  "hll_add_all (Some 0)
     [(0, 4), (1, 4), (2, 4), (3, 4), (4, 4), (5, 4), (6, 4), (7, 4), (8, 4), (9, 4),
      (10, 4), (11, 4), (12, 4), (13, 4), (14, 4)]
     (memory_with (Some integer_hash) 4 (replicate 16 0)) =
     Inr (replicate 15 HLL_OK, memory_with (Some integer_hash) 4 regs_after_0_to_14) \<and>
   length (filter (\<lambda>r. r = 0) regs_after_0_to_14) = 5 \<and>
   spec_E 16 regs_after_0_to_14 \<le> 5 / 2 * 16 \<and>
   hll_count powf_base2 logf (Some 0) (memory_with (Some integer_hash) 4 regs_after_0_to_14) =
     float_to_int (fmul (FNum 16) (logf (FNum 3))) \<and>
   (16 :: 32 word) div 5 = 3 \<and>
   16 * ln 3 < spec_linear_counting 16 5 \<and>
   hll_add_all (Some 0)
     [(1, 4), (2, 4), (7, 4), (8, 4), (12, 4), (13, 4), (16, 4), (19, 4), (21, 4), (25, 4),
      (31, 4), (32, 4), (42, 4), (57, 4), (71, 4), (108, 4)]
     (memory_with (Some integer_hash) 4 (replicate 16 0)) =
     Inr (replicate 16 HLL_OK, memory_with (Some integer_hash) 4 regs_all_1) \<and>
   length (filter (\<lambda>r. r = 0) regs_all_1) = 0 \<and>
   spec_E 16 regs_all_1 = 2692 / 125 \<and> spec_E 16 regs_all_1 \<le> 5 / 2 * 16 \<and>
   hll_count powf_base2 logf (Some 0) (memory_with (Some integer_hash) 4 regs_all_1) = Inr 0"
proof -
  have len: "length regs_after_0_to_14 = 16" "length regs_all_1 = 16"
      "length (replicate 16 (0 :: 32 word)) = 16"
    by (simp_all add: regs_after_0_to_14_def regs_all_1_def)
  have adds: "hll_add_all (Some 0)
     [(0, 4), (1, 4), (2, 4), (3, 4), (4, 4), (5, 4), (6, 4), (7, 4), (8, 4), (9, 4),
      (10, 4), (11, 4), (12, 4), (13, 4), (14, 4)]
     (memory_with (Some integer_hash) 4 (replicate 16 0)) =
     Inr (replicate 15 HLL_OK, memory_with (Some integer_hash) 4 regs_after_0_to_14)"
  proof -
    have l: "length [(0 :: 32 word, 4 :: 32 word), (1, 4), (2, 4), (3, 4), (4, 4), (5, 4),
        (6, 4), (7, 4), (8, 4), (9, 4), (10, 4), (11, 4), (12, 4), (13, 4), (14, 4)] = 15"
      by simp
    from hll_add_all_memory_with [OF len(3)] show ?thesis
      unfolding l [symmetric] fold_0_to_14 [symmetric] .
  qed
  have adds1: "hll_add_all (Some 0)
     [(1, 4), (2, 4), (7, 4), (8, 4), (12, 4), (13, 4), (16, 4), (19, 4), (21, 4), (25, 4),
      (31, 4), (32, 4), (42, 4), (57, 4), (71, 4), (108, 4)]
     (memory_with (Some integer_hash) 4 (replicate 16 0)) =
     Inr (replicate 16 HLL_OK, memory_with (Some integer_hash) 4 regs_all_1)"
  proof -
    have l: "length [(1 :: 32 word, 4 :: 32 word), (2, 4), (7, 4), (8, 4), (12, 4), (13, 4),
        (16, 4), (19, 4), (21, 4), (25, 4), (31, 4), (32, 4), (42, 4), (57, 4), (71, 4),
        (108, 4)] = 16"
      by simp
    from hll_add_all_memory_with [OF len(3)] show ?thesis
      unfolding l [symmetric] fold_all_1 [symmetric] .
  qed
  have zeros: "length (filter (\<lambda>r. r = 0) regs_after_0_to_14) = 5"
      "length (filter (\<lambda>r. r = 0) regs_all_1) = 0"
    by (simp_all add: regs_after_0_to_14_def regs_all_1_def)
  have cnt: "hll_count powf_base2 logf (Some 0)
      (memory_with (Some integer_hash) 4 regs_after_0_to_14) =
      float_to_int (fmul (FNum 16) (logf (FNum 3)))"
    by (simp add: hll_count_memory_with [OF len(1)] Let_def sum_0_to_14 estimate_inf
        small_range_0 zeros float_of_uint_16 float_of_uint_3)
  have cnt1: "hll_count powf_base2 logf (Some 0) (memory_with (Some integer_hash) 4 regs_all_1) =
      Inr 0"
    by (simp add: hll_count_memory_with [OF len(2)] Let_def sum_all_1 estimate_inf
        small_range_0 zeros float_to_int_def)
  have spec: "spec_E 16 regs_after_0_to_14 \<le> 5 / 2 * 16" "spec_E 16 regs_all_1 = 2692 / 125"
    by (simp_all add: spec_E_def spec_Z_def spec_alpha_def regs_after_0_to_14_def regs_all_1_def)
  have "ln (3 :: real) < ln (16 / 5)"
    by (subst ln_less_cancel_iff) simp_all
  then have lin: "16 * ln 3 < spec_linear_counting 16 5"
    by (simp add: spec_linear_counting_def)
  from adds adds1 zeros cnt cnt1 spec lin show ?thesis
    by simp
qed

end
